theory Spec2Isabelle
  imports Complex_Main "HOL-Library.Sublist"
begin

unbundle bit_operations_syntax

section \<open>Grid and quadtree arithmetic (src/tileGrid.ts)\<close>

text \<open>
  A JavaScript \<open>number\<close> that holds a coordinate is modelled as a \<^typ>\<open>real\<close>: the
  arithmetic of the source is taken exactly, without the rounding of IEEE doubles.
  A \<open>number\<close> that holds a row, a column or a count is an \<^typ>\<open>int\<close>, and a quadrant
  index a \<^typ>\<open>nat\<close>. All results below are about this exact arithmetic.
\<close>

record TileId =
  row :: int
  col :: int

record TileGridConfig =
  latCount :: int
  lonCount :: int

record Bounds =
  west :: real
  south :: real
  east :: real
  north :: real

definition DEFAULT_GRID_CONFIG :: TileGridConfig where
  "DEFAULT_GRID_CONFIG = \<lparr>latCount = 36, lonCount = 72\<rparr>"

text \<open>
  \<open>tileBounds(row, col, config, gapFraction)\<close>. The source computes the raw cell
  (\<open>south0\<close>, \<open>north0\<close>, \<open>west0\<close>, \<open>east0\<close> here) and then moves the four edges in place
  when \<open>gapFraction > 0\<close>. The division \<open>180 / config.latCount\<close> is only meaningful for
  a positive count (the source documents a zero count as a caller error), and every
  result below assumes it.
\<close>

definition tileBounds :: "int \<Rightarrow> int \<Rightarrow> TileGridConfig \<Rightarrow> real \<Rightarrow> Bounds" where
  "tileBounds r c config gapFraction =
     (let latStep = 180 / real_of_int (latCount config);
          lonStep = 360 / real_of_int (lonCount config);
          south0 = - 90 + real_of_int r * latStep;
          north0 = south0 + latStep;
          west0 = - 180 + real_of_int c * lonStep;
          east0 = west0 + lonStep
      in if gapFraction > 0 then
           (let marginLon = lonStep * gapFraction;
                marginLat = latStep * gapFraction
            in \<lparr>west = west0 + marginLon / 2, south = south0 + marginLat / 2,
                east = east0 - marginLon / 2, north = north0 - marginLat / 2\<rparr>)
         else \<lparr>west = west0, south = south0, east = east0, north = north0\<rparr>)"

definition insetBounds :: "Bounds \<Rightarrow> real \<Rightarrow> Bounds" where
  "insetBounds bounds gapFraction =
     (let w = east bounds - west bounds;
          h = north bounds - south bounds;
          marginLon = w * (gapFraction / 2);
          marginLat = h * (gapFraction / 2)
      in \<lparr>west = west bounds + marginLon, south = south bounds + marginLat,
          east = east bounds - marginLon, north = north bounds - marginLat\<rparr>)"

text \<open>
  \<open>quadrantBounds\<close> is a \<open>switch\<close> over 0, 1, 2, 3 with no default: for any other
  number the JavaScript function falls off its end and returns \<open>undefined\<close>, which is
  \<open>None\<close> here.
\<close>

definition quadrantBounds :: "Bounds \<Rightarrow> nat \<Rightarrow> Bounds option" where
  "quadrantBounds bounds quadrant =
     (let midLon = (west bounds + east bounds) / 2;
          midLat = (south bounds + north bounds) / 2
      in if quadrant = 0 then
           Some \<lparr>west = west bounds, south = south bounds, east = midLon, north = midLat\<rparr>
         else if quadrant = 1 then
           Some \<lparr>west = midLon, south = south bounds, east = east bounds, north = midLat\<rparr>
         else if quadrant = 2 then
           Some \<lparr>west = west bounds, south = midLat, east = midLon, north = north bounds\<rparr>
         else if quadrant = 3 then
           Some \<lparr>west = midLon, south = midLat, east = east bounds, north = north bounds\<rparr>
         else None)"

definition quadrantAt :: "real \<Rightarrow> real \<Rightarrow> Bounds \<Rightarrow> nat" where
  "quadrantAt lat lon bounds =
     (let midLon = (west bounds + east bounds) / 2;
          midLat = (south bounds + north bounds) / 2;
          northBit = (if lat \<ge> midLat then 1 else 0);
          eastBit = (if lon \<ge> midLon then 1 else 0)
      in (push_bit 1 northBit) OR eastBit)"

definition latLonToTile :: "real \<Rightarrow> real \<Rightarrow> TileGridConfig \<Rightarrow> TileId" where
  "latLonToTile lat lon config =
     (let latStep = 180 / real_of_int (latCount config);
          lonStep = 360 / real_of_int (lonCount config);
          r = min \<lfloor>(lat + 90) / latStep\<rfloor> (latCount config - 1);
          c = min \<lfloor>(lon + 180) / lonStep\<rfloor> (lonCount config - 1)
      in \<lparr>row = max 0 r, col = max 0 c\<rparr>)"


section \<open>Tile identifiers as strings (src/tileGrid.ts)\<close>

text \<open>
  A template literal \<open>`${n}`\<close> prints a number that holds an integer in decimal, with a
  leading \<open>-\<close> when it is negative (JavaScript switches to exponent notation only from
  \<open>10\<^sup>2\<^sup>1\<close> on, far beyond any grid). \<open>natToString\<close> is that decimal rendering.
\<close>

definition digitChar :: "nat \<Rightarrow> char" where
  "digitChar d = ''0123456789'' ! d"

fun natToString :: "nat \<Rightarrow> string" where
  "natToString n = (if n < 10 then [digitChar n] else natToString (n div 10) @ [digitChar (n mod 10)])"

declare natToString.simps [simp del]

definition numberToString :: "int \<Rightarrow> string" where
  "numberToString i = (if i < 0 then CHR ''-'' # natToString (nat (- i)) else natToString (nat i))"

definition tileIdToString :: "TileId \<Rightarrow> string" where
  "tileIdToString tile = ''tile_'' @ numberToString (row tile) @ ''_'' @ numberToString (col tile)"

text \<open>
  \<open>parseTileId\<close> matches the identifier against \<open>/^tile_(\d+)_(\d+)$/\<close>. The pattern is
  anchored at both ends and has no flags, \<open>\d\<close> is one of the ten ASCII digits, and the
  first group is followed by an underscore, so it is the longest run of digits after
  \<open>tile_\<close>. \<open>matchTileId\<close> returns the two groups, or \<open>None\<close> where \<open>match\<close> returns
  \<open>null\<close>. \<open>parseInt10\<close> is \<open>parseInt(s, 10)\<close> on a string of digits, the only strings
  the two groups can hold.
\<close>

definition isDigit :: "char \<Rightarrow> bool" where
  "isDigit ch \<longleftrightarrow> ch \<in> set ''0123456789''"

definition digitValue :: "char \<Rightarrow> nat" where
  "digitValue ch = of_char ch - 48"

definition parseInt10 :: "string \<Rightarrow> int" where
  "parseInt10 s = int (foldl (\<lambda>acc ch. 10 * acc + digitValue ch) 0 s)"

definition matchTileId :: "string \<Rightarrow> (string \<times> string) option" where
  "matchTileId s =
     (if prefix ''tile_'' s then
        (let rest = drop 5 s;
             g1 = takeWhile isDigit rest;
             rest1 = dropWhile isDigit rest
         in case rest1 of
              [] \<Rightarrow> None
            | ch # g2 \<Rightarrow>
                if g1 \<noteq> [] \<and> ch = CHR ''_'' \<and> g2 \<noteq> [] \<and> list_all isDigit g2
                then Some (g1, g2) else None)
      else None)"

definition parseTileId :: "string \<Rightarrow> TileId option" where
  "parseTileId s =
     (case matchTileId s of
        None \<Rightarrow> None
      | Some (g1, g2) \<Rightarrow> Some \<lparr>row = parseInt10 g1, col = parseInt10 g2\<rparr>)"


section \<open>Notions of the specification\<close>

text \<open>
  The specification speaks of a point lying within (or on the boundary of) a rectangle,
  of the interior of a rectangle, of the centre of a rectangle, of clamping a number to
  a range and of strings of the form \<open>tile_<digits>_<digits>\<close>. None of them is a function
  of the source; they are defined here to state the properties.
\<close>

definition inBounds :: "Bounds \<Rightarrow> real \<Rightarrow> real \<Rightarrow> bool" where
  "inBounds b lat lon \<longleftrightarrow> west b \<le> lon \<and> lon \<le> east b \<and> south b \<le> lat \<and> lat \<le> north b"

definition strictlyInside :: "Bounds \<Rightarrow> real \<Rightarrow> real \<Rightarrow> bool" where
  "strictlyInside b lat lon \<longleftrightarrow> west b < lon \<and> lon < east b \<and> south b < lat \<and> lat < north b"

definition centerLat :: "Bounds \<Rightarrow> real" where
  "centerLat b = (south b + north b) / 2"

definition centerLon :: "Bounds \<Rightarrow> real" where
  "centerLon b = (west b + east b) / 2"

definition clamp :: "int \<Rightarrow> int \<Rightarrow> int \<Rightarrow> int" where
  "clamp x lo hi = (if x < lo then lo else if x > hi then hi else x)"


text \<open>
  The identifier of the node reached from a tile by a path of quadrants,
  \<open>tile_<row>_<col>_<q0>_<q1>_...\<close>, and the region such a node covers: the tile's cell
  narrowed to one quadrant per step of the path (\<open>quadrantOf\<close> is \<open>quadrantBounds\<close> for a
  quadrant from 0 to 3).
\<close>

definition nodeId :: "string \<Rightarrow> nat list \<Rightarrow> string" where
  "nodeId baseId path = baseId @ concat (map (\<lambda>q. CHR ''_'' # natToString q) path)"

definition quadrantOf :: "Bounds \<Rightarrow> nat \<Rightarrow> Bounds" where
  "quadrantOf b q = (case quadrantBounds b q of Some b' \<Rightarrow> b' | None \<Rightarrow> b)"

definition regionAt :: "Bounds \<Rightarrow> nat list \<Rightarrow> Bounds" where
  "regionAt b path = foldl quadrantOf b path"

text \<open>
  The quadrant of a rectangle that holds a point (the hole of a level), and the quadrants
  on the way of a point for a number of levels.
\<close>

definition holeBounds :: "real \<Rightarrow> real \<Rightarrow> Bounds \<Rightarrow> Bounds" where
  "holeBounds lat lon b = quadrantOf b (quadrantAt lat lon b)"

fun pointPath :: "real \<Rightarrow> real \<Rightarrow> Bounds \<Rightarrow> nat \<Rightarrow> nat list" where
  "pointPath lat lon b 0 = []"
| "pointPath lat lon b (Suc n) = quadrantAt lat lon b # pointPath lat lon (holeBounds lat lon b) n"

text \<open>A rectangle with an interior, and a rectangle that lies strictly inside another.\<close>

definition nonDegenerate :: "Bounds \<Rightarrow> bool" where
  "nonDegenerate b \<longleftrightarrow> west b < east b \<and> south b < north b"

definition strictlyWithin :: "Bounds \<Rightarrow> Bounds \<Rightarrow> bool" where
  "strictlyWithin a b \<longleftrightarrow> west b < west a \<and> east a < east b \<and> south b < south a \<and> north a < north b"


section \<open>The subdivision controller (\<open>removeOrSplitTileAt\<close>)\<close>

text \<open>
  The entry points of the repository differ in three constants only: the grid, the margin
  of the top-level tiles and the number of levels of a split. They are gathered in a
  record; \<open>followSettings\<close> are the constants beside the \<open>removeOrSplitTileAt\<close> of the
  entry point that follows the device location, \<open>defaultSettings\<close> those of the other two.
\<close>

record Settings =
  gridConfig :: TileGridConfig
  TILE_GAP :: real
  SPLIT_DEPTH :: nat

definition followSettings :: Settings where
  "followSettings = \<lparr>gridConfig = \<lparr>latCount = 18, lonCount = 36\<rparr>, TILE_GAP = 3 / 100, SPLIT_DEPTH = 15\<rparr>"

definition defaultSettings :: Settings where
  "defaultSettings = \<lparr>gridConfig = DEFAULT_GRID_CONFIG, TILE_GAP = 8 / 100, SPLIT_DEPTH = 10\<rparr>"

definition gapForDepth :: "Settings \<Rightarrow> nat \<Rightarrow> real" where
  "gapForDepth st depth = max (1 / 100) (TILE_GAP st * (1 / 2) ^ depth)"

text \<open>
  Modelled from the spec: the rendering surface (\<open>viewer.entities\<close>, an entity collection of
  the Cesium library) is not part of the sources. The specification describes it as a
  registry keyed by identifier with add, remove, lookup by identifier and iteration over
  all entities. An entity is its rectangle (kept in degrees) and its \<open>show\<close> flag; the
  registry is a map from identifiers to entities. An identifier is the key of at most one
  entity: adding an identifier that is registered is an error.
\<close>

datatype error = TypeError | DuplicateId string

record Entity =
  rectangle :: Bounds
  shown :: bool

type_synonym EntityCollection = "string \<Rightarrow> Entity option"

definition getById :: "EntityCollection \<Rightarrow> string \<Rightarrow> Entity option" where
  "getById entities eid = entities eid"

definition addEntity :: "EntityCollection \<Rightarrow> string \<Rightarrow> Entity \<Rightarrow> error + EntityCollection" where
  "addEntity entities eid e =
     (case entities eid of
        Some _ \<Rightarrow> Inl (DuplicateId eid)
      | None \<Rightarrow> Inr (entities(eid \<mapsto> e)))"

definition removeEntity :: "EntityCollection \<Rightarrow> string \<Rightarrow> EntityCollection" where
  "removeEntity entities eid = entities(eid := None)"

text \<open>
  The scan \<open>viewer.entities.values.forEach\<close> that collects every entity whose identifier
  starts with the prefix, followed by the removal of the collected entities.
\<close>

definition removeByPrefix :: "EntityCollection \<Rightarrow> string \<Rightarrow> EntityCollection" where
  "removeByPrefix entities pre = (\<lambda>eid. if prefix pre eid then None else entities eid)"

definition addTileEntity ::
  "string \<Rightarrow> real \<Rightarrow> real \<Rightarrow> real \<Rightarrow> real \<Rightarrow> EntityCollection \<Rightarrow> error + EntityCollection" where
  "addTileEntity eid w s e n entities =
     addEntity entities eid \<lparr>rectangle = \<lparr>west = w, south = s, east = e, north = n\<rparr>, shown = True\<rparr>"

text \<open>
  The tiles drawn at start-up: one entity for every row and column, with the margin
  \<open>TILE_GAP\<close>. \<open>forEachM\<close> runs the body of a \<open>for\<close> loop over the values of its counter,
  stopping at the first error.
\<close>

fun forEachM :: "('a \<Rightarrow> 's \<Rightarrow> error + 's) \<Rightarrow> 'a list \<Rightarrow> 's \<Rightarrow> error + 's" where
  "forEachM body [] s = Inr s"
| "forEachM body (x # xs) s = (case body x s of Inl err \<Rightarrow> Inl err | Inr s' \<Rightarrow> forEachM body xs s')"

definition initialEntities :: "Settings \<Rightarrow> error + EntityCollection" where
  "initialEntities st =
     forEachM (\<lambda>r. forEachM (\<lambda>c entities.
         let bounds = tileBounds r c (gridConfig st) (TILE_GAP st)
         in addEntity entities (tileIdToString \<lparr>row = r, col = c\<rparr>)
              \<lparr>rectangle = bounds, shown = True\<rparr>)
         [0 .. lonCount (gridConfig st) - 1])
       [0 .. latCount (gridConfig st) - 1] Map.empty"

text \<open>\<open>path.join("_")\<close> for a path of quadrant numbers.\<close>

fun joinPath :: "nat list \<Rightarrow> string" where
  "joinPath [] = []"
| "joinPath [q] = natToString q"
| "joinPath (q # qs) = natToString q @ ''_'' @ joinPath qs"

text \<open>
  The inner loop \<open>for (q = 0; q < 4; q++)\<close> of a split: every quadrant but the hole gets an
  entity, inset by the margin of the level, under the identifier \<open>eidOf q\<close>. Reading a
  field of the \<open>undefined\<close> that \<open>quadrantBounds\<close> returns outside 0..3 is a \<open>TypeError\<close>.
\<close>

definition addQuadrants ::
  "Settings \<Rightarrow> (nat \<Rightarrow> string) \<Rightarrow> Bounds \<Rightarrow> nat \<Rightarrow> nat \<Rightarrow> EntityCollection \<Rightarrow> error + EntityCollection" where
  "addQuadrants st eidOf bounds holeQ depth entities =
     forEachM (\<lambda>q ents.
         if q = holeQ then Inr ents
         else (case quadrantBounds bounds q of
                 None \<Rightarrow> Inl TypeError
               | Some b0 \<Rightarrow>
                   let b = insetBounds b0 (gapForDepth st depth)
                   in addTileEntity (eidOf q) (west b) (south b) (east b) (north b) ents))
       [0, 1, 2, 3] entities"

text \<open>
  The loop of the first branch (the tile's own entity is shown): \<open>n\<close> levels remain,
  \<open>level\<close> is the loop counter.
\<close>

fun splitTile ::
  "Settings \<Rightarrow> real \<Rightarrow> real \<Rightarrow> string \<Rightarrow> nat \<Rightarrow> nat \<Rightarrow> Bounds \<Rightarrow> nat list \<Rightarrow> EntityCollection
     \<Rightarrow> error + EntityCollection" where
  "splitTile st lat lon baseId 0 level bounds path entities = Inr entities"
| "splitTile st lat lon baseId (Suc n) level bounds path entities =
     (let holeQ = quadrantAt lat lon bounds
      in case addQuadrants st
                (\<lambda>q. if length path \<noteq> 0
                      then baseId @ ''_'' @ joinPath path @ ''_'' @ natToString q
                      else baseId @ ''_'' @ natToString q)
                bounds holeQ level entities of
           Inl err \<Rightarrow> Inl err
         | Inr entities' \<Rightarrow>
             (case quadrantBounds bounds holeQ of
                None \<Rightarrow> Inl TypeError
              | Some bounds' \<Rightarrow>
                  splitTile st lat lon baseId n (Suc level) bounds' (path @ [holeQ]) entities'))"

text \<open>
  The loop of the second branch, which splits the leaf found by the walk: \<open>n\<close> levels
  remain, \<open>d\<close> is the loop counter and the depth of a level is \<open>currentDepth + d\<close>.
\<close>

fun splitLeaf ::
  "Settings \<Rightarrow> real \<Rightarrow> real \<Rightarrow> string \<Rightarrow> nat \<Rightarrow> nat \<Rightarrow> nat \<Rightarrow> Bounds \<Rightarrow> nat list \<Rightarrow> EntityCollection
     \<Rightarrow> error + EntityCollection" where
  "splitLeaf st lat lon baseId currentDepth 0 d bounds path entities = Inr entities"
| "splitLeaf st lat lon baseId currentDepth (Suc n) d bounds path entities =
     (let holeQ = quadrantAt lat lon bounds;
          depth = currentDepth + d
      in case addQuadrants st
                (\<lambda>qq. baseId @ ''_'' @ joinPath path @ ''_'' @ natToString qq)
                bounds holeQ depth entities of
           Inl err \<Rightarrow> Inl err
         | Inr entities' \<Rightarrow>
             (case quadrantBounds bounds holeQ of
                None \<Rightarrow> Inl TypeError
              | Some bounds' \<Rightarrow>
                  splitLeaf st lat lon baseId currentDepth n (Suc d) bounds' (path @ [holeQ]) entities'))"

text \<open>
  The walk of the second branch: \<open>n\<close> levels remain. The first identifier on the way of the
  point whose entity is shown is removed together with every entity below it, and its
  quadrant is split for the remaining depth.
\<close>

fun findLeaf ::
  "Settings \<Rightarrow> real \<Rightarrow> real \<Rightarrow> string \<Rightarrow> nat \<Rightarrow> Bounds \<Rightarrow> nat list \<Rightarrow> EntityCollection
     \<Rightarrow> error + EntityCollection" where
  "findLeaf st lat lon baseId 0 bounds path entities = Inr entities"
| "findLeaf st lat lon baseId (Suc n) bounds path entities =
     (let q = quadrantAt lat lon bounds;
          path' = path @ [q];
          eid = baseId @ ''_'' @ joinPath path'
      in if (case getById entities eid of Some entity \<Rightarrow> shown entity | None \<Rightarrow> False) then
           (let currentDepth = length path';
                remainingDepth = SPLIT_DEPTH st - currentDepth
            in case quadrantBounds bounds q of
                 None \<Rightarrow> Inl TypeError
               | Some tileBounds' \<Rightarrow>
                   splitLeaf st lat lon baseId currentDepth remainingDepth 0 tileBounds' path'
                     (removeByPrefix (removeEntity entities eid) (eid @ ''_'')))
         else (case quadrantBounds bounds q of
                 None \<Rightarrow> Inl TypeError
               | Some bounds' \<Rightarrow> findLeaf st lat lon baseId n bounds' path' entities))"

definition removeOrSplitTileAt :: "Settings \<Rightarrow> real \<Rightarrow> real \<Rightarrow> EntityCollection \<Rightarrow> error + EntityCollection" where
  "removeOrSplitTileAt st lat lon entities =
     (let tile = latLonToTile lat lon (gridConfig st);
          baseId = tileIdToString tile;
          baseBoundsFull = tileBounds (row tile) (col tile) (gridConfig st) 0
      in if (case getById entities baseId of Some baseEntity \<Rightarrow> shown baseEntity | None \<Rightarrow> False) then
           splitTile st lat lon baseId (SPLIT_DEPTH st) 0 baseBoundsFull [] (removeEntity entities baseId)
         else findLeaf st lat lon baseId (SPLIT_DEPTH st) baseBoundsFull [] entities)"


section \<open>Notions used in the proofs about the controller\<close>

text \<open>
  The entity that a split creates for the quadrant \<open>q\<close> of the rectangle \<open>b\<close> at a depth, and
  the entities that \<open>n\<close> levels of a split create below the node at \<open>path\<close> (whose rectangle
  is \<open>b\<close>): at each level \<open>k\<close> the three quadrants beside the way of the point.
\<close>

definition quadrantEntity :: "Settings \<Rightarrow> Bounds \<Rightarrow> nat \<Rightarrow> nat \<Rightarrow> Entity" where
  "quadrantEntity st b depth q =
     \<lparr>rectangle = insetBounds (quadrantOf b q) (gapForDepth st depth), shown = True\<rparr>"

definition created ::
  "Settings \<Rightarrow> real \<Rightarrow> real \<Rightarrow> string \<Rightarrow> nat \<Rightarrow> nat \<Rightarrow> Bounds \<Rightarrow> nat list \<Rightarrow> string \<Rightarrow> Entity \<Rightarrow> bool" where
  "created st lat lon baseId n level b path eid e \<longleftrightarrow>
     (\<exists>k q. k < n \<and> q < 4 \<and> q \<noteq> quadrantAt lat lon (regionAt b (pointPath lat lon b k))
        \<and> eid = nodeId baseId (path @ pointPath lat lon b k @ [q])
        \<and> e = quadrantEntity st (regionAt b (pointPath lat lon b k)) (level + k) q)"

text \<open>The test \<open>entity?.show\<close> on the entity registered under an identifier.\<close>

definition isShown :: "EntityCollection \<Rightarrow> string \<Rightarrow> bool" where
  "isShown entities eid = (case getById entities eid of Some entity \<Rightarrow> shown entity | None \<Rightarrow> False)"

text \<open>A path of quadrant numbers, each from 0 to 3.\<close>

definition validPath :: "nat list \<Rightarrow> bool" where
  "validPath path \<longleftrightarrow> (\<forall>q \<in> set path. q < 4)"

text \<open>
  The tile of a point, as \<open>removeOrSplitTileAt\<close> computes it first (\<open>baseId\<close> and
  \<open>baseBoundsFull\<close>), and the node at depth \<open>k\<close> on the way of the point below that tile:
  its path, its identifier and its rectangle.
\<close>

definition baseIdAt :: "Settings \<Rightarrow> real \<Rightarrow> real \<Rightarrow> string" where
  "baseIdAt st lat lon = tileIdToString (latLonToTile lat lon (gridConfig st))"

definition baseBoundsAt :: "Settings \<Rightarrow> real \<Rightarrow> real \<Rightarrow> Bounds" where
  "baseBoundsAt st lat lon =
     tileBounds (row (latLonToTile lat lon (gridConfig st))) (col (latLonToTile lat lon (gridConfig st)))
       (gridConfig st) 0"

definition pathAt :: "Settings \<Rightarrow> real \<Rightarrow> real \<Rightarrow> nat \<Rightarrow> nat list" where
  "pathAt st lat lon k = pointPath lat lon (baseBoundsAt st lat lon) k"

definition wayId :: "Settings \<Rightarrow> real \<Rightarrow> real \<Rightarrow> nat \<Rightarrow> string" where
  "wayId st lat lon k = nodeId (baseIdAt st lat lon) (pathAt st lat lon k)"

definition wayBounds :: "Settings \<Rightarrow> real \<Rightarrow> real \<Rightarrow> nat \<Rightarrow> Bounds" where
  "wayBounds st lat lon k = regionAt (baseBoundsAt st lat lon) (pathAt st lat lon k)"

text \<open>
  Settings with a grid and a positive margin, and the registries the controller works on:
  every entity is shown, its identifier is that of a node of the grid at most \<open>SPLIT_DEPTH\<close>
  levels below a tile, its rectangle lies strictly inside the region of that node, and a
  tile whose own entity is registered has no entity below it.
\<close>

definition saneSettings :: "Settings \<Rightarrow> bool" where
  "saneSettings st \<longleftrightarrow> 0 < latCount (gridConfig st) \<and> 0 < lonCount (gridConfig st) \<and> 0 < TILE_GAP st"

definition validTile :: "Settings \<Rightarrow> int \<Rightarrow> int \<Rightarrow> bool" where
  "validTile st r c \<longleftrightarrow> 0 \<le> r \<and> r < latCount (gridConfig st) \<and> 0 \<le> c \<and> c < lonCount (gridConfig st)"

definition wellFormed :: "Settings \<Rightarrow> EntityCollection \<Rightarrow> bool" where
  "wellFormed st entities \<longleftrightarrow>
     (\<forall>eid e. entities eid = Some e \<longrightarrow>
        shown e \<and>
        (\<exists>r c path. validTile st r c \<and> validPath path \<and> length path \<le> SPLIT_DEPTH st
           \<and> eid = nodeId (tileIdToString \<lparr>row = r, col = c\<rparr>) path
           \<and> strictlyWithin (rectangle e) (regionAt (tileBounds r c (gridConfig st) 0) path)))
     \<and> (\<forall>r c eid. validTile st r c \<and> entities (tileIdToString \<lparr>row = r, col = c\<rparr>) \<noteq> None
           \<and> prefix (tileIdToString \<lparr>row = r, col = c\<rparr> @ ''_'') eid
           \<longrightarrow> entities eid = None)"

text \<open>
  The registry once the start-up loop has run, and the registries that invocations of
  \<open>removeOrSplitTileAt\<close> lead to from there.
\<close>

definition startEntities :: "Settings \<Rightarrow> EntityCollection" where
  "startEntities st = (case initialEntities st of Inr entities \<Rightarrow> entities | Inl _ \<Rightarrow> Map.empty)"

inductive reachable :: "Settings \<Rightarrow> EntityCollection \<Rightarrow> bool" for st :: Settings where
  start: "initialEntities st = Inr entities \<Longrightarrow> reachable st entities"
| step: "reachable st entities \<Longrightarrow> removeOrSplitTileAt st lat lon entities = Inr entities'
          \<Longrightarrow> reachable st entities'"

text \<open>One turn of the inner loop of a split, for the quadrant \<open>q\<close>.\<close>

definition addQuadrant :: "Settings \<Rightarrow> (nat \<Rightarrow> string) \<Rightarrow> Bounds \<Rightarrow> nat \<Rightarrow> nat \<Rightarrow> nat \<Rightarrow> EntityCollection \<Rightarrow> error + EntityCollection" where
  "addQuadrant st eidOf bounds holeQ depth q ents =
     (if q = holeQ then Inr ents
      else (case quadrantBounds bounds q of
              None \<Rightarrow> Inl TypeError
            | Some b0 \<Rightarrow>
                let b = insetBounds b0 (gapForDepth st depth)
                in addTileEntity (eidOf q) (west b) (south b) (east b) (north b) ents))"




section \<open>Properties of the grid arithmetic\<close>

subsection \<open>Cells of the grid\<close>

lemma tileBounds_raw:
  "tileBounds r c config 0 =
     \<lparr>west = - 180 + real_of_int c * (360 / real_of_int (lonCount config)),
      south = - 90 + real_of_int r * (180 / real_of_int (latCount config)),
      east = - 180 + real_of_int c * (360 / real_of_int (lonCount config)) + 360 / real_of_int (lonCount config),
      north = - 90 + real_of_int r * (180 / real_of_int (latCount config)) + 180 / real_of_int (latCount config)\<rparr>"
  by (simp add: tileBounds_def Let_def)

lemma floor_cell:
  fixes x step :: real and k :: int
  assumes "0 < step" "real_of_int k * step \<le> x" "x < real_of_int k * step + step"
  shows "\<lfloor>x / step\<rfloor> = k"
proof (rule floor_unique)
  show "of_int k \<le> x / step" using assms by (simp add: pos_le_divide_eq)
  have "x < (real_of_int k + 1) * step" using assms by (simp add: algebra_simps)
  then show "x / step < of_int k + 1" using assms by (simp add: pos_divide_less_eq)
qed

lemma latLonToTile_cell:
  assumes "0 < latCount config" "0 < lonCount config"
    and "0 \<le> r" "r < latCount config" "0 \<le> c" "c < lonCount config"
    and "south (tileBounds r c config 0) \<le> lat" "lat < north (tileBounds r c config 0)"
    and "west (tileBounds r c config 0) \<le> lon" "lon < east (tileBounds r c config 0)"
  shows "latLonToTile lat lon config = \<lparr>row = r, col = c\<rparr>"
proof -
  let ?ls = "180 / real_of_int (latCount config)"
  let ?os = "360 / real_of_int (lonCount config)"
  have p: "0 < ?ls" "0 < ?os" using assms by simp_all
  have "\<lfloor>(lat + 90) / ?ls\<rfloor> = r"
    using assms(7,8) p(1) by (intro floor_cell) (simp_all add: tileBounds_raw)
  moreover have "\<lfloor>(lon + 180) / ?os\<rfloor> = c"
    using assms(9,10) p(2) by (intro floor_cell) (simp_all add: tileBounds_raw)
  ultimately show ?thesis
    using assms(3-6) by (simp add: latLonToTile_def Let_def)
qed










subsection \<open>Quadrants\<close>

lemma quadrantAt_cases:
  "quadrantAt lat lon b =
     (if lat \<ge> centerLat b then (if lon \<ge> centerLon b then 3 else 2)
      else (if lon \<ge> centerLon b then 1 else 0))"
  by (simp add: quadrantAt_def Let_def centerLat_def centerLon_def)

lemma quadrantAt_less_4: "quadrantAt lat lon b < 4"
  by (simp add: quadrantAt_cases)

lemma quadrantBounds_Some_iff: "(\<exists>bq. quadrantBounds b q = Some bq) \<longleftrightarrow> q < 4"
proof -
  have "q < 4 \<longleftrightarrow> q = 0 \<or> q = 1 \<or> q = 2 \<or> q = 3" by auto
  then show ?thesis by (auto simp add: quadrantBounds_def Let_def)
qed

lemma quadrantBounds_simps:
  "quadrantBounds b 0 = Some \<lparr>west = west b, south = south b, east = centerLon b, north = centerLat b\<rparr>"
  "quadrantBounds b (Suc 0) = Some \<lparr>west = centerLon b, south = south b, east = east b, north = centerLat b\<rparr>"
  "quadrantBounds b 2 = Some \<lparr>west = west b, south = centerLat b, east = centerLon b, north = north b\<rparr>"
  "quadrantBounds b 3 = Some \<lparr>west = centerLon b, south = centerLat b, east = east b, north = north b\<rparr>"
  by (simp_all add: quadrantBounds_def Let_def centerLat_def centerLon_def)

lemma quadrantBounds_cases:
  assumes "quadrantBounds b q = Some bq"
  obtains "q = 0" "bq = \<lparr>west = west b, south = south b, east = centerLon b, north = centerLat b\<rparr>"
  | "q = 1" "bq = \<lparr>west = centerLon b, south = south b, east = east b, north = centerLat b\<rparr>"
  | "q = 2" "bq = \<lparr>west = west b, south = centerLat b, east = centerLon b, north = north b\<rparr>"
  | "q = 3" "bq = \<lparr>west = centerLon b, south = centerLat b, east = east b, north = north b\<rparr>"
  using assms by (auto simp add: quadrantBounds_def Let_def centerLat_def centerLon_def split: if_splits)

lemma quadrantBounds_quadrantAt:
  assumes "inBounds b lat lon"
  shows "\<exists>bq. quadrantBounds b (quadrantAt lat lon b) = Some bq \<and> inBounds bq lat lon"
  using assms by (auto simp add: quadrantAt_cases quadrantBounds_simps inBounds_def)

lemma quadrantBounds_sub:
  assumes "west b \<le> east b" "south b \<le> north b" "quadrantBounds b q = Some bq" "inBounds bq lat lon"
  shows "inBounds b lat lon"
  using assms(3) 
proof (cases rule: quadrantBounds_cases)
qed (use assms(1,2,4) in \<open>auto simp add: inBounds_def centerLat_def centerLon_def\<close>)

lemma strictlyInside_quadrantAt:
  assumes "quadrantBounds b q = Some bq" "strictlyInside bq lat lon"
  shows "quadrantAt lat lon b = q"
  using assms(1)
proof (cases rule: quadrantBounds_cases)
qed (use assms(2) in \<open>auto simp add: strictlyInside_def quadrantAt_cases\<close>)

text \<open>
  Claim C5. For a rectangle with \<open>west < east\<close> and \<open>south < north\<close>, \<open>quadrantBounds\<close> returns
  a rectangle exactly for the quadrants 0, 1, 2 and 3; the four rectangles split the input
  at the midpoint of each axis, a point lies in the input exactly when it lies in one of
  them, and two different quadrants have no interior point in common.
\<close>

theorem quadrantBounds_partition:
  assumes "west b < east b" "south b < north b"
  shows "(\<forall>q. (\<exists>bq. quadrantBounds b q = Some bq) \<longleftrightarrow> q < 4)
       \<and> quadrantBounds b 0 = Some \<lparr>west = west b, south = south b, east = centerLon b, north = centerLat b\<rparr>
       \<and> quadrantBounds b 1 = Some \<lparr>west = centerLon b, south = south b, east = east b, north = centerLat b\<rparr>
       \<and> quadrantBounds b 2 = Some \<lparr>west = west b, south = centerLat b, east = centerLon b, north = north b\<rparr>
       \<and> quadrantBounds b 3 = Some \<lparr>west = centerLon b, south = centerLat b, east = east b, north = north b\<rparr>
       \<and> (\<forall>lat lon. inBounds b lat lon \<longleftrightarrow>
            (\<exists>q bq. quadrantBounds b q = Some bq \<and> inBounds bq lat lon))
       \<and> (\<forall>q q' bq bq' lat lon.
            quadrantBounds b q = Some bq \<and> quadrantBounds b q' = Some bq' \<and> q \<noteq> q'
            \<longrightarrow> \<not> (strictlyInside bq lat lon \<and> strictlyInside bq' lat lon))"
proof (intro conjI allI impI)
  fix lat lon
  show "inBounds b lat lon \<longleftrightarrow> (\<exists>q bq. quadrantBounds b q = Some bq \<and> inBounds bq lat lon)"
    using quadrantBounds_quadrantAt[of b lat lon] quadrantBounds_sub[of b _ _ lat lon] assms
    by (meson less_imp_le)
next
  fix q q' bq bq' lat lon
  assume "quadrantBounds b q = Some bq \<and> quadrantBounds b q' = Some bq' \<and> q \<noteq> q'"
  then show "\<not> (strictlyInside bq lat lon \<and> strictlyInside bq' lat lon)"
    using strictlyInside_quadrantAt[of b q bq lat lon] strictlyInside_quadrantAt[of b q' bq' lat lon]
    by auto
qed (simp_all add: quadrantBounds_Some_iff quadrantBounds_simps)

theorem quadrantBounds_partition_witness:
  "west \<lparr>west = 0, south = 0, east = 10, north = 10\<rparr> < east \<lparr>west = 0, south = 0, east = 10, north = 10\<rparr>
   \<and> south \<lparr>west = 0, south = 0, east = 10, north = 10\<rparr> < north \<lparr>west = 0, south = 0, east = 10, north = 10\<rparr>
   \<and> quadrantBounds \<lparr>west = 0, south = 0, east = 10, north = 10\<rparr> 2
        = Some \<lparr>west = 0, south = 5, east = 5, north = 10\<rparr>
   \<and> inBounds \<lparr>west = 0, south = 0, east = 10, north = 10\<rparr> 7 2
   \<and> (\<exists>q bq. quadrantBounds \<lparr>west = 0, south = 0, east = 10, north = 10\<rparr> q = Some bq \<and> inBounds bq 7 2)
   \<and> strictlyInside \<lparr>west = 0, south = 5, east = 5, north = 10\<rparr> 7 2
   \<and> \<not> strictlyInside \<lparr>west = 5, south = 5, east = 10, north = 10\<rparr> 7 2"
proof -
  let ?b = "\<lparr>west = 0, south = 0, east = 10, north = 10\<rparr>"
  have h: "west ?b < east ?b" "south ?b < north ?b" by simp_all
  note p = quadrantBounds_partition[OF h]
  have q2: "quadrantBounds ?b 2 = Some \<lparr>west = 0, south = 5, east = 5, north = 10\<rparr>"
    using p by (simp add: centerLat_def centerLon_def)
  have q3: "quadrantBounds ?b 3 = Some \<lparr>west = 5, south = 5, east = 10, north = 10\<rparr>"
    using p by (simp add: centerLat_def centerLon_def)
  have i: "inBounds ?b 7 2" by (simp add: inBounds_def)
  have u: "\<exists>q bq. quadrantBounds ?b q = Some bq \<and> inBounds bq 7 2"
    using p i by blast
  have s: "strictlyInside \<lparr>west = 0, south = 5, east = 5, north = 10\<rparr> 7 2"
    by (simp add: strictlyInside_def)
  have "(2::nat) \<noteq> 3" by simp
  with p q2 q3 s have n: "\<not> strictlyInside \<lparr>west = 5, south = 5, east = 10, north = 10\<rparr> 7 2"
    by blast
  from h q2 i u s n show ?thesis by blast
qed

text \<open>
  Claim C6. For a rectangle with \<open>west < east\<close> and \<open>south < north\<close> and any point,
  \<open>quadrantAt\<close> is \<open>(northBit << 1) | eastBit\<close>, where \<open>northBit\<close> is 1 exactly when the
  latitude is at least the vertical midpoint and \<open>eastBit\<close> is 1 exactly when the longitude
  is at least the horizontal midpoint; a point on both midpoints is in quadrant 3
  (north-east); and a point within the rectangle lies within (or on the boundary of)
  \<open>quadrantBounds\<close> of its own quadrant.
\<close>

theorem quadrantAt_consistent:
  assumes "west b < east b" "south b < north b"
  shows "quadrantAt lat lon b =
           push_bit 1 (if lat \<ge> centerLat b then 1 else 0) OR (if lon \<ge> centerLon b then 1 else 0)
       \<and> quadrantAt lat lon b =
           2 * (if lat \<ge> centerLat b then 1 else 0) + (if lon \<ge> centerLon b then 1 else 0)
       \<and> quadrantAt (centerLat b) (centerLon b) b = 3
       \<and> (inBounds b lat lon \<longrightarrow>
            (\<exists>bq. quadrantBounds b (quadrantAt lat lon b) = Some bq \<and> inBounds bq lat lon))"
  using quadrantBounds_quadrantAt[of b lat lon]
  by (simp add: quadrantAt_cases)

theorem quadrantAt_consistent_witness:
  "west \<lparr>west = 0, south = 0, east = 10, north = 10\<rparr> < east \<lparr>west = 0, south = 0, east = 10, north = 10\<rparr>
   \<and> south \<lparr>west = 0, south = 0, east = 10, north = 10\<rparr> < north \<lparr>west = 0, south = 0, east = 10, north = 10\<rparr>
   \<and> inBounds \<lparr>west = 0, south = 0, east = 10, north = 10\<rparr> 5 2
   \<and> quadrantAt 5 2 \<lparr>west = 0, south = 0, east = 10, north = 10\<rparr> = 2
   \<and> (\<exists>bq. quadrantBounds \<lparr>west = 0, south = 0, east = 10, north = 10\<rparr>
              (quadrantAt 5 2 \<lparr>west = 0, south = 0, east = 10, north = 10\<rparr>) = Some bq
            \<and> inBounds bq 5 2)"
proof -
  let ?b = "\<lparr>west = 0, south = 0, east = 10, north = 10\<rparr>"
  have h: "west ?b < east ?b" "south ?b < north ?b" by simp_all
  have i: "inBounds ?b 5 2" by (simp add: inBounds_def)
  note p = quadrantAt_consistent[OF h, of 5 2]
  have v: "quadrantAt 5 2 ?b = 2"
    using p[THEN conjunct2, THEN conjunct1] by (simp add: centerLat_def centerLon_def)
  have e: "\<exists>bq. quadrantBounds ?b (quadrantAt 5 2 ?b) = Some bq \<and> inBounds bq 5 2"
    using p i by blast
  from h i v e show ?thesis by blast
qed

subsection \<open>From a point to its tile\<close>

lemma clamp_max_min: "0 < n \<Longrightarrow> max 0 (min k (n - 1)) = clamp k 0 (n - 1)"
  by (auto simp add: clamp_def)

lemma clamp_negative: "k < 0 \<Longrightarrow> 0 < n \<Longrightarrow> clamp k 0 (n - 1) = 0"
  by (simp add: clamp_def)

subsection \<open>Identifiers\<close>

lemma lt10_cases:
  fixes d :: nat
  assumes "d < 10"
  shows "d = 0 \<or> d = 1 \<or> d = 2 \<or> d = 3 \<or> d = 4 \<or> d = 5 \<or> d = 6 \<or> d = 7 \<or> d = 8 \<or> d = 9"
  using assms by arith

lemma digitChar_isDigit: "d < 10 \<Longrightarrow> isDigit (digitChar d)"
  using lt10_cases[of d] by (auto simp add: isDigit_def digitChar_def)

lemma digitValue_digitChar: "d < 10 \<Longrightarrow> digitValue (digitChar d) = d"
  using lt10_cases[of d] by (auto simp add: digitValue_def digitChar_def)

lemma isDigit_not_underscore: "isDigit ch \<Longrightarrow> ch \<noteq> CHR ''_''"
  by (auto simp add: isDigit_def)

lemma natToString_digits: "list_all isDigit (natToString n)"
proof (induction n rule: natToString.induct)
  case (1 n)
  show ?case
  proof (cases "n < 10")
    case True
    then show ?thesis by (subst natToString.simps) (simp add: digitChar_isDigit)
  next
    case False
    with 1 show ?thesis by (subst natToString.simps) (simp add: digitChar_isDigit)
  qed
qed

lemma natToString_nonempty: "natToString n \<noteq> []"
  by (subst natToString.simps) simp

lemma foldl_natToString:
  "foldl (\<lambda>acc ch. 10 * acc + digitValue ch) 0 (natToString n) = n"
proof (induction n rule: natToString.induct)
  case (1 n)
  show ?case
  proof (cases "n < 10")
    case True
    then show ?thesis by (subst natToString.simps) (simp add: digitValue_digitChar)
  next
    case False
    with 1 show ?thesis by (subst natToString.simps) (simp add: digitValue_digitChar)
  qed
qed

lemma parseInt10_natToString: "parseInt10 (natToString n) = int n"
  by (simp add: parseInt10_def foldl_natToString)

lemma takeWhile_digits_underscore:
  assumes "list_all isDigit g"
  shows "takeWhile isDigit (g @ CHR ''_'' # t) = g" "dropWhile isDigit (g @ CHR ''_'' # t) = CHR ''_'' # t"
  using assms by (induction g) (auto simp add: isDigit_def)

lemma matchTileId_Some_iff:
  "matchTileId s = Some (g1, g2) \<longleftrightarrow>
     g1 \<noteq> [] \<and> g2 \<noteq> [] \<and> list_all isDigit g1 \<and> list_all isDigit g2 \<and> s = ''tile_'' @ g1 @ ''_'' @ g2"
proof
  assume m: "matchTileId s = Some (g1, g2)"
  then have p: "prefix ''tile_'' s" by (simp add: matchTileId_def split: if_splits)
  then obtain rest where s: "s = ''tile_'' @ rest" by (auto simp add: prefix_def)
  from m s have d: "dropWhile isDigit rest = CHR ''_'' # g2" "takeWhile isDigit rest = g1"
    "g1 \<noteq> []" "g2 \<noteq> []" "list_all isDigit g2"
    by (auto simp add: matchTileId_def Let_def split: list.splits if_splits)
  have "rest = takeWhile isDigit rest @ dropWhile isDigit rest" by simp
  then have "rest = g1 @ CHR ''_'' # g2" using d(1,2) by simp
  moreover have "list_all isDigit g1" using d(2) by (auto simp add: list_all_iff dest: set_takeWhileD)
  ultimately show "g1 \<noteq> [] \<and> g2 \<noteq> [] \<and> list_all isDigit g1 \<and> list_all isDigit g2 \<and> s = ''tile_'' @ g1 @ ''_'' @ g2"
    using d(3,4,5) s by simp
next
  assume "g1 \<noteq> [] \<and> g2 \<noteq> [] \<and> list_all isDigit g1 \<and> list_all isDigit g2 \<and> s = ''tile_'' @ g1 @ ''_'' @ g2"
  then show "matchTileId s = Some (g1, g2)"
    by (simp add: matchTileId_def takeWhile_digits_underscore)
qed


lemma parseTileId_tileIdToString:
  assumes "0 \<le> row tile" "0 \<le> col tile"
  shows "parseTileId (tileIdToString tile) = Some tile"
proof -
  have "matchTileId (tileIdToString tile) = Some (natToString (nat (row tile)), natToString (nat (col tile)))"
    using assms
    by (simp add: matchTileId_Some_iff tileIdToString_def numberToString_def
        natToString_nonempty natToString_digits)
  then show ?thesis
    using assms by (simp add: parseTileId_def parseInt10_natToString)
qed

text \<open>
  Claim C7. For a grid with positive counts, \<open>latLonToTile\<close> returns the row
  \<open>clamp(floor((lat + 90) / latStep), 0, latCount - 1)\<close> and the column
  \<open>clamp(floor((lon + 180) / lonStep), 0, lonCount - 1)\<close>, a negative floor giving 0; and
  with 36 rows and 72 columns the point (10, 10) is in row 20, column 38, whose identifier
  is \<open>tile_20_38\<close>.
\<close>

theorem latLonToTile_clamp:
  "(0 < latCount config \<and> 0 < lonCount config \<longrightarrow>
      row (latLonToTile lat lon config) =
        clamp \<lfloor>(lat + 90) / (180 / real_of_int (latCount config))\<rfloor> 0 (latCount config - 1)
    \<and> col (latLonToTile lat lon config) =
        clamp \<lfloor>(lon + 180) / (360 / real_of_int (lonCount config))\<rfloor> 0 (lonCount config - 1)
    \<and> (\<lfloor>(lat + 90) / (180 / real_of_int (latCount config))\<rfloor> < 0
          \<longrightarrow> row (latLonToTile lat lon config) = 0)
    \<and> (\<lfloor>(lon + 180) / (360 / real_of_int (lonCount config))\<rfloor> < 0
          \<longrightarrow> col (latLonToTile lat lon config) = 0))
   \<and> latLonToTile 10 10 \<lparr>latCount = 36, lonCount = 72\<rparr> = \<lparr>row = 20, col = 38\<rparr>
   \<and> tileIdToString (latLonToTile 10 10 \<lparr>latCount = 36, lonCount = 72\<rparr>) = ''tile_20_38''"
proof -
  define kr where "kr = \<lfloor>(lat + 90) / (180 / real_of_int (latCount config))\<rfloor>"
  define kc where "kc = \<lfloor>(lon + 180) / (360 / real_of_int (lonCount config))\<rfloor>"
  have rc: "row (latLonToTile lat lon config) = max 0 (min kr (latCount config - 1))"
    "col (latLonToTile lat lon config) = max 0 (min kc (lonCount config - 1))"
    by (simp_all add: latLonToTile_def Let_def kr_def kc_def)
  have general: "0 < latCount config \<and> 0 < lonCount config \<longrightarrow>
      row (latLonToTile lat lon config) = clamp kr 0 (latCount config - 1)
    \<and> col (latLonToTile lat lon config) = clamp kc 0 (lonCount config - 1)
    \<and> (kr < 0 \<longrightarrow> row (latLonToTile lat lon config) = 0)
    \<and> (kc < 0 \<longrightarrow> col (latLonToTile lat lon config) = 0)"
    unfolding rc by (simp add: clamp_max_min clamp_negative)
  have ex: "latLonToTile 10 10 \<lparr>latCount = 36, lonCount = 72\<rparr> = \<lparr>row = 20, col = 38\<rparr>"
    by (simp add: latLonToTile_def Let_def)
  have str: "tileIdToString (latLonToTile 10 10 \<lparr>latCount = 36, lonCount = 72\<rparr>) = ''tile_20_38''"
    unfolding ex by (simp add: tileIdToString_def numberToString_def natToString.simps digitChar_def)
  from general ex str show ?thesis unfolding kr_def kc_def by blast
qed

theorem latLonToTile_clamp_witness:
  "0 < latCount \<lparr>latCount = 36, lonCount = 72\<rparr> \<and> 0 < lonCount \<lparr>latCount = 36, lonCount = 72\<rparr>
   \<and> \<lfloor>(- 100 + 90) / (180 / real_of_int (latCount \<lparr>latCount = 36, lonCount = 72\<rparr>))\<rfloor> = - 2
   \<and> \<lfloor>(200 + 180) / (360 / real_of_int (lonCount \<lparr>latCount = 36, lonCount = 72\<rparr>))\<rfloor> = 76
   \<and> clamp (- 2) 0 35 = 0 \<and> clamp 76 0 71 = 71
   \<and> row (latLonToTile (- 100) 200 \<lparr>latCount = 36, lonCount = 72\<rparr>) = 0
   \<and> col (latLonToTile (- 100) 200 \<lparr>latCount = 36, lonCount = 72\<rparr>) = 71"
proof -
  let ?cfg = "\<lparr>latCount = 36, lonCount = 72\<rparr>"
  have f: "\<lfloor>(- 100 + 90) / (180 / real_of_int (latCount ?cfg))\<rfloor> = - 2"
    "\<lfloor>(200 + 180) / (360 / real_of_int (lonCount ?cfg))\<rfloor> = 76"
    by simp_all
  have c: "clamp (- 2) 0 35 = 0" "clamp 76 0 71 = 71" by (simp_all add: clamp_def)
  have h: "0 < latCount ?cfg \<and> 0 < lonCount ?cfg" by simp
  from latLonToTile_clamp[of ?cfg "- 100" 200] h
  have "row (latLonToTile (- 100) 200 ?cfg) = clamp \<lfloor>(- 100 + 90) / (180 / real_of_int (latCount ?cfg))\<rfloor> 0 (latCount ?cfg - 1)"
    "col (latLonToTile (- 100) 200 ?cfg) = clamp \<lfloor>(200 + 180) / (360 / real_of_int (lonCount ?cfg))\<rfloor> 0 (lonCount ?cfg - 1)"
    by blast+
  then have "row (latLonToTile (- 100) 200 ?cfg) = 0" "col (latLonToTile (- 100) 200 ?cfg) = 71"
    unfolding f using c by simp_all
  with f c h show ?thesis by blast
qed



subsection \<open>Margins\<close>





section \<open>Properties of the subdivision controller\<close>


subsection \<open>Node identifiers\<close>

lemma natToString_digit: "q < 10 \<Longrightarrow> natToString q = [digitChar q]"
  by (subst natToString.simps) simp

lemma digitChar_inj: "a < 10 \<Longrightarrow> b < 10 \<Longrightarrow> digitChar a = digitChar b \<Longrightarrow> a = b"
  by (metis digitValue_digitChar)

lemma natToString_inj: "natToString a = natToString b \<Longrightarrow> a = b"
  by (metis foldl_natToString)

lemma natToString_no_underscore: "CHR ''_'' \<notin> set (natToString n)"
  using natToString_digits[of n] isDigit_not_underscore by (auto simp add: list_all_iff)

lemma nodeId_Nil: "nodeId baseId [] = baseId"
  by (simp add: nodeId_def)

lemma nodeId_snoc: "nodeId baseId (path @ [q]) = nodeId baseId path @ CHR ''_'' # natToString q"
  by (simp add: nodeId_def)

lemma nodeId_append: "nodeId baseId (p @ p') = nodeId (nodeId baseId p) p'"
  by (simp add: nodeId_def)

lemma nodeId_Cons: "nodeId baseId (q # p) = nodeId (baseId @ CHR ''_'' # natToString q) p"
  by (simp add: nodeId_def)

lemma joinPath_nodeId: "path \<noteq> [] \<Longrightarrow> baseId @ ''_'' @ joinPath path = nodeId baseId path"
proof (induction path arbitrary: baseId rule: joinPath.induct)
  case 1
  then show ?case by simp
next
  case (2 q)
  show ?case by (simp add: nodeId_def)
next
  case (3 q v va)
  have "(baseId @ ''_'' @ natToString q) @ ''_'' @ joinPath (v # va) = nodeId (baseId @ ''_'' @ natToString q) (v # va)"
    by (rule 3) simp
  then show ?case by (simp add: nodeId_Cons)
qed

lemma tile_subId:
  "(if length path \<noteq> 0 then baseId @ ''_'' @ joinPath path @ ''_'' @ natToString q
    else baseId @ ''_'' @ natToString q) = nodeId baseId (path @ [q])"
proof (cases "path = []")
  case True
  then show ?thesis by (simp add: nodeId_def)
next
  case False
  then have "baseId @ ''_'' @ joinPath path @ ''_'' @ natToString q = nodeId baseId path @ ''_'' @ natToString q"
    using joinPath_nodeId[of path baseId] by simp
  with False show ?thesis by (simp add: nodeId_snoc)
qed

lemma leaf_subId:
  "path \<noteq> [] \<Longrightarrow> baseId @ ''_'' @ joinPath path @ ''_'' @ natToString q = nodeId baseId (path @ [q])"
  using tile_subId[of path baseId q] by simp

lemma prefix_nodeId: "prefix (nodeId baseId p) (nodeId baseId (p @ p'))"
  by (simp add: nodeId_append) (simp add: nodeId_def)

lemma prefix_nodeId_underscore: "p' \<noteq> [] \<Longrightarrow> prefix (nodeId baseId p @ ''_'') (nodeId baseId (p @ p'))"
  by (cases p') (simp_all add: nodeId_append, simp add: nodeId_def)

subsection \<open>The loops of a split\<close>

lemma holeBounds_Some: "quadrantBounds b (quadrantAt lat lon b) = Some (holeBounds lat lon b)"
  using quadrantBounds_Some_iff[of b "quadrantAt lat lon b"] quadrantAt_less_4[of lat lon b]
  by (auto simp add: holeBounds_def quadrantOf_def)

lemma splitTile_Suc:
  "splitTile st lat lon baseId (Suc n) level bounds path entities =
     (case addQuadrants st (\<lambda>q. nodeId baseId (path @ [q])) bounds (quadrantAt lat lon bounds) level entities of
        Inl err \<Rightarrow> Inl err
      | Inr entities' \<Rightarrow>
          splitTile st lat lon baseId n (Suc level) (holeBounds lat lon bounds)
            (path @ [quadrantAt lat lon bounds]) entities')"
  unfolding splitTile.simps Let_def tile_subId holeBounds_Some by (simp cong: sum.case_cong)

lemma splitLeaf_Suc:
  assumes "path \<noteq> []"
  shows "splitLeaf st lat lon baseId currentDepth (Suc n) d bounds path entities =
     (case addQuadrants st (\<lambda>q. nodeId baseId (path @ [q])) bounds (quadrantAt lat lon bounds)
             (currentDepth + d) entities of
        Inl err \<Rightarrow> Inl err
      | Inr entities' \<Rightarrow>
          splitLeaf st lat lon baseId currentDepth n (Suc d) (holeBounds lat lon bounds)
            (path @ [quadrantAt lat lon bounds]) entities')"
proof -
  have ids: "(\<lambda>qq. baseId @ ''_'' @ joinPath path @ ''_'' @ natToString qq) = (\<lambda>q. nodeId baseId (path @ [q]))"
    using leaf_subId[OF assms, of baseId] by (intro ext)
  show ?thesis
    unfolding splitLeaf.simps Let_def ids holeBounds_Some by (simp cong: sum.case_cong)
qed

lemma splitLeaf_eq_splitTile:
  "path \<noteq> [] \<Longrightarrow>
   splitLeaf st lat lon baseId currentDepth n d bounds path entities
     = splitTile st lat lon baseId n (currentDepth + d) bounds path entities"
proof (induction n arbitrary: d bounds path entities)
  case 0
  then show ?case by simp
next
  case (Suc n)
  have "splitLeaf st lat lon baseId currentDepth n (Suc d) b' (path @ [q]) e'
      = splitTile st lat lon baseId n (Suc (currentDepth + d)) b' (path @ [q]) e'" for b' q e'
    using Suc.IH[of "path @ [q]" "Suc d" b' e'] by simp
  then show ?case
    unfolding splitLeaf_Suc[OF Suc.prems] splitTile_Suc by (simp cong: sum.case_cong)
qed

lemma nodeId_child_eq_iff: "nodeId baseId (path @ [q]) = nodeId baseId (path @ [q']) \<longleftrightarrow> q = q'"
  using natToString_inj[of q q'] by (auto simp add: nodeId_snoc)

lemma quadrantOf_Some: "q < 4 \<Longrightarrow> quadrantBounds b q = Some (quadrantOf b q)"
  using quadrantBounds_Some_iff[of b q] by (auto simp add: quadrantOf_def)

lemma Bounds_eta: "\<lparr>west = west b, south = south b, east = east b, north = north b\<rparr> = (b::Bounds)"
  by simp

lemma addQuadrants_unfold:
  "addQuadrants st eidOf b h depth entities = forEachM (addQuadrant st eidOf b h depth) [0, 1, 2, 3] entities"
  unfolding addQuadrants_def addQuadrant_def by (rule refl)

lemma addQuadrant_hole: "addQuadrant st eidOf b h depth h ents = Inr ents"
  by (simp add: addQuadrant_def)

lemma addQuadrant_other:
  assumes "q < 4" "q \<noteq> h" "ents (eidOf q) = None"
  shows "addQuadrant st eidOf b h depth q ents = Inr (ents(eidOf q \<mapsto> quadrantEntity st b depth q))"
  using assms
  by (simp add: addQuadrant_def quadrantOf_Some Let_def addTileEntity_def addEntity_def quadrantEntity_def
      Bounds_eta)

lemma addQuadrant_graph:
  assumes "q < 4" "q \<noteq> h \<longrightarrow> ents (eidOf q) = None"
  shows "\<exists>ents1. addQuadrant st eidOf b h depth q ents = Inr ents1
           \<and> (\<forall>eid e. ents1 eid = Some e \<longleftrightarrow>
                 ents eid = Some e \<or> (q \<noteq> h \<and> eid = eidOf q \<and> e = quadrantEntity st b depth q))"
proof (cases "q = h")
  case True
  then show ?thesis by (simp add: addQuadrant_hole)
next
  case False
  with assms have "addQuadrant st eidOf b h depth q ents = Inr (ents(eidOf q \<mapsto> quadrantEntity st b depth q))"
    by (intro addQuadrant_other) simp_all
  with False assms(2) show ?thesis by auto
qed

lemma graph_None:
  assumes "\<forall>eid e. m' eid = Some e \<longleftrightarrow> m eid = Some e \<or> P eid e"
    and "m x = None" and "\<forall>e. \<not> P x e"
  shows "m' x = None"
  using assms by (cases "m' x") auto

lemma addQuadrants_graph:
  assumes fresh: "\<forall>q<4. q \<noteq> h \<longrightarrow> entities (nodeId baseId (path @ [q])) = None"
  shows "\<exists>ents1. addQuadrants st (\<lambda>q. nodeId baseId (path @ [q])) b h depth entities = Inr ents1
           \<and> (\<forall>eid e. ents1 eid = Some e \<longleftrightarrow>
                 entities eid = Some e
                 \<or> (\<exists>q<4. q \<noteq> h \<and> eid = nodeId baseId (path @ [q]) \<and> e = quadrantEntity st b depth q))"
proof -
  let ?i = "\<lambda>q. nodeId baseId (path @ [q])"
  let ?step = "addQuadrant st ?i b h depth"
  let ?new = "\<lambda>q eid e. q \<noteq> h \<and> eid = ?i q \<and> e = quadrantEntity st b depth q"
  obtain e0 where e0: "?step 0 entities = Inr e0"
    "\<forall>eid e. e0 eid = Some e \<longleftrightarrow> entities eid = Some e \<or> ?new 0 eid e"
    using addQuadrant_graph[of 0 h entities ?i st b depth] fresh by auto
  have "1 \<noteq> h \<longrightarrow> e0 (?i 1) = None"
    using fresh by (intro impI graph_None[OF e0(2)]) (simp_all add: nodeId_child_eq_iff)
  then obtain e1 where e1: "?step 1 e0 = Inr e1"
    "\<forall>eid e. e1 eid = Some e \<longleftrightarrow> e0 eid = Some e \<or> ?new 1 eid e"
    using addQuadrant_graph[of 1 h e0 ?i st b depth] by auto
  have "2 \<noteq> h \<longrightarrow> e1 (?i 2) = None"
    using fresh by (intro impI graph_None[OF e1(2)] graph_None[OF e0(2)]) (simp_all add: nodeId_child_eq_iff)
  then obtain e2 where e2: "?step 2 e1 = Inr e2"
    "\<forall>eid e. e2 eid = Some e \<longleftrightarrow> e1 eid = Some e \<or> ?new 2 eid e"
    using addQuadrant_graph[of 2 h e1 ?i st b depth] by auto
  have "3 \<noteq> h \<longrightarrow> e2 (?i 3) = None"
    using fresh
    by (intro impI graph_None[OF e2(2)] graph_None[OF e1(2)] graph_None[OF e0(2)])
      (simp_all add: nodeId_child_eq_iff)
  then obtain e3 where e3: "?step 3 e2 = Inr e3"
    "\<forall>eid e. e3 eid = Some e \<longleftrightarrow> e2 eid = Some e \<or> ?new 3 eid e"
    using addQuadrant_graph[of 3 h e2 ?i st b depth] by auto
  have run: "addQuadrants st ?i b h depth entities = Inr e3"
    unfolding addQuadrants_unfold forEachM.simps e0(1) e1(1) e2(1) e3(1) sum.case by (rule refl)
  have ex4: "(\<exists>q<4. P q) \<longleftrightarrow> P 0 \<or> P 1 \<or> P 2 \<or> P (3::nat)" for P
  proof -
    have "q < 4 \<longleftrightarrow> q = 0 \<or> q = 1 \<or> q = 2 \<or> q = 3" for q :: nat by auto
    then show ?thesis by metis
  qed
  have "e3 eid = Some e \<longleftrightarrow> entities eid = Some e \<or> (\<exists>q<4. ?new q eid e)" for eid e
    unfolding ex4
    using e0(2)[rule_format, of eid e] e1(2)[rule_format, of eid e]
      e2(2)[rule_format, of eid e] e3(2)[rule_format, of eid e]
    by simp
  with run show ?thesis by blast
qed

lemma prefix_child_underscore:
  assumes "prefix (nodeId baseId (path @ [h]) @ ''_'') eid"
  shows "prefix (nodeId baseId path @ ''_'') eid"
proof -
  have "prefix (nodeId baseId path @ ''_'') (nodeId baseId (path @ [h]) @ ''_'')"
    by (simp add: nodeId_snoc)
  with assms show ?thesis using prefix_order.trans by blast
qed

lemma not_prefix_sibling:
  "\<not> prefix (nodeId baseId (path @ [h]) @ ''_'') (nodeId baseId (path @ [q]))"
proof
  assume "prefix (nodeId baseId (path @ [h]) @ ''_'') (nodeId baseId (path @ [q]))"
  then have "prefix (natToString h @ ''_'') (natToString q)"
    by (simp add: nodeId_snoc)
  then have "CHR ''_'' \<in> set (natToString q)"
    by (auto simp add: prefix_def)
  then show False using natToString_no_underscore by simp
qed

lemma regionAt_Nil: "regionAt b [] = b"
  by (simp add: regionAt_def)

lemma regionAt_Cons: "regionAt b (q # qs) = regionAt (quadrantOf b q) qs"
  by (simp add: regionAt_def)

lemma regionAt_snoc: "regionAt b (qs @ [q]) = quadrantOf (regionAt b qs) q"
  by (simp add: regionAt_def)

lemma regionAt_pointPath_Suc:
  "regionAt b (pointPath lat lon b (Suc k)) = regionAt (holeBounds lat lon b) (pointPath lat lon (holeBounds lat lon b) k)"
  by (simp add: regionAt_Cons holeBounds_def)

lemma created_0: "\<not> created st lat lon baseId 0 level b path eid e"
  by (simp add: created_def)

lemma created_Suc:
  "created st lat lon baseId (Suc n) level b path eid e \<longleftrightarrow>
     (\<exists>q<4. q \<noteq> quadrantAt lat lon b \<and> eid = nodeId baseId (path @ [q]) \<and> e = quadrantEntity st b level q)
     \<or> created st lat lon baseId n (Suc level) (holeBounds lat lon b) (path @ [quadrantAt lat lon b]) eid e"
  (is "?L \<longleftrightarrow> ?A \<or> ?B")
proof
  assume ?L
  then obtain k q where kq: "k < Suc n" "q < 4"
      "q \<noteq> quadrantAt lat lon (regionAt b (pointPath lat lon b k))"
      "eid = nodeId baseId (path @ pointPath lat lon b k @ [q])"
      "e = quadrantEntity st (regionAt b (pointPath lat lon b k)) (level + k) q"
    unfolding created_def by blast
  show "?A \<or> ?B"
  proof (cases k)
    case 0
    with kq have ?A by (auto simp add: regionAt_Nil)
    then show ?thesis ..
  next
    case (Suc k')
    with kq have ?B
      unfolding created_def regionAt_pointPath_Suc
      by (rule_tac x = k' in exI, rule_tac x = q in exI) (simp add: regionAt_Cons holeBounds_def)
    then show ?thesis ..
  qed
next
  assume "?A \<or> ?B"
  then show ?L
  proof
    assume ?A
    then obtain q where "q < 4" "q \<noteq> quadrantAt lat lon b" "eid = nodeId baseId (path @ [q])"
      "e = quadrantEntity st b level q" by blast
    then show ?L unfolding created_def
      by (rule_tac x = 0 in exI, rule_tac x = q in exI) (simp add: regionAt_Nil)
  next
    assume ?B
    then obtain k q where kq: "k < n" "q < 4"
      "q \<noteq> quadrantAt lat lon (regionAt (holeBounds lat lon b) (pointPath lat lon (holeBounds lat lon b) k))"
      "eid = nodeId baseId ((path @ [quadrantAt lat lon b]) @ pointPath lat lon (holeBounds lat lon b) k @ [q])"
      "e = quadrantEntity st (regionAt (holeBounds lat lon b) (pointPath lat lon (holeBounds lat lon b) k)) (Suc level + k) q"
      unfolding created_def by blast
    then show ?L unfolding created_def
      by (rule_tac x = "Suc k" in exI, rule_tac x = q in exI) (simp add: regionAt_Cons holeBounds_def)
  qed
qed

lemma created_prefix:
  assumes "created st lat lon baseId n level b path eid e"
  shows "prefix (nodeId baseId path @ ''_'') eid"
proof -
  from assms obtain k q where "eid = nodeId baseId (path @ pointPath lat lon b k @ [q])"
    unfolding created_def by blast
  then show ?thesis
    using prefix_nodeId_underscore[of "pointPath lat lon b k @ [q]" baseId path] by simp
qed

lemma splitTile_graph:
  assumes "\<forall>eid. prefix (nodeId baseId path @ ''_'') eid \<longrightarrow> entities eid = None"
  shows "\<exists>ents'. splitTile st lat lon baseId n level b path entities = Inr ents'
           \<and> (\<forall>eid e. ents' eid = Some e \<longleftrightarrow>
                 entities eid = Some e \<or> created st lat lon baseId n level b path eid e)"
  using assms
proof (induction n arbitrary: level b path entities)
  case 0
  then show ?case by (simp add: created_0)
next
  case (Suc n)
  let ?h = "quadrantAt lat lon b"
  have "\<forall>q<4. q \<noteq> ?h \<longrightarrow> entities (nodeId baseId (path @ [q])) = None"
    using Suc.prems prefix_nodeId_underscore[of "[_]" baseId path] by simp
  from addQuadrants_graph[OF this, of st b level]
  obtain ents1 where ents1:
    "addQuadrants st (\<lambda>q. nodeId baseId (path @ [q])) b ?h level entities = Inr ents1"
    "\<forall>eid e. ents1 eid = Some e \<longleftrightarrow>
        entities eid = Some e
        \<or> (\<exists>q<4. q \<noteq> ?h \<and> eid = nodeId baseId (path @ [q]) \<and> e = quadrantEntity st b level q)"
    by blast
  have fresh1: "\<forall>eid. prefix (nodeId baseId (path @ [?h]) @ ''_'') eid \<longrightarrow> ents1 eid = None"
  proof (intro allI impI)
    fix eid
    assume p: "prefix (nodeId baseId (path @ [?h]) @ ''_'') eid"
    show "ents1 eid = None"
    proof (rule graph_None[OF ents1(2)])
      show "entities eid = None" using Suc.prems prefix_child_underscore[OF p] by simp
      show "\<forall>e. \<not> (\<exists>q<4. q \<noteq> ?h \<and> eid = nodeId baseId (path @ [q]) \<and> e = quadrantEntity st b level q)"
        using p not_prefix_sibling[of baseId path ?h] by auto
    qed
  qed
  from Suc.IH[OF fresh1, of "Suc level" "holeBounds lat lon b"]
  obtain ents' where ents':
    "splitTile st lat lon baseId n (Suc level) (holeBounds lat lon b) (path @ [?h]) ents1 = Inr ents'"
    "\<forall>eid e. ents' eid = Some e \<longleftrightarrow>
        ents1 eid = Some e
        \<or> created st lat lon baseId n (Suc level) (holeBounds lat lon b) (path @ [?h]) eid e"
    by blast
  have run: "splitTile st lat lon baseId (Suc n) level b path entities = Inr ents'"
    unfolding splitTile_Suc ents1(1) sum.case ents'(1) by (rule refl)
  have "ents' eid = Some e \<longleftrightarrow>
          entities eid = Some e \<or> created st lat lon baseId (Suc n) level b path eid e" for eid e
    unfolding created_Suc
    using ents'(2)[rule_format, of eid e] ents1(2)[rule_format, of eid e] by blast
  with run show ?case by blast
qed

subsection \<open>The walk to the leaf\<close>

lemma findLeaf_Suc:
  "findLeaf st lat lon baseId (Suc n) b path entities =
     (if isShown entities (nodeId baseId (path @ [quadrantAt lat lon b])) then
        splitTile st lat lon baseId (SPLIT_DEPTH st - Suc (length path)) (Suc (length path))
          (holeBounds lat lon b) (path @ [quadrantAt lat lon b])
          (removeByPrefix (removeEntity entities (nodeId baseId (path @ [quadrantAt lat lon b])))
             (nodeId baseId (path @ [quadrantAt lat lon b]) @ ''_''))
      else findLeaf st lat lon baseId n (holeBounds lat lon b) (path @ [quadrantAt lat lon b]) entities)"
proof -
  have j: "baseId @ ''_'' @ joinPath (path @ [quadrantAt lat lon b]) = nodeId baseId (path @ [quadrantAt lat lon b])"
    by (rule joinPath_nodeId) simp
  have s: "splitLeaf st lat lon baseId (length (path @ [quadrantAt lat lon b])) m 0 bb
             (path @ [quadrantAt lat lon b]) ee
         = splitTile st lat lon baseId m (Suc (length path)) bb (path @ [quadrantAt lat lon b]) ee" for m bb ee
    using splitLeaf_eq_splitTile[of "path @ [quadrantAt lat lon b]" st lat lon baseId
        "length (path @ [quadrantAt lat lon b])" m 0 bb ee]
    by simp
  show ?thesis
    unfolding findLeaf.simps Let_def j holeBounds_Some s isShown_def option.case
    by simp
qed

lemma pointPath_append_Suc:
  "path @ pointPath lat lon b (Suc k)
     = (path @ [quadrantAt lat lon b]) @ pointPath lat lon (holeBounds lat lon b) k"
  by simp

lemma findLeaf_none:
  assumes "\<forall>k. 1 \<le> k \<and> k \<le> n \<longrightarrow> \<not> isShown entities (nodeId baseId (path @ pointPath lat lon b k))"
  shows "findLeaf st lat lon baseId n b path entities = Inr entities"
  using assms
proof (induction n arbitrary: b path)
  case 0
  then show ?case by simp
next
  case (Suc n)
  have first: "\<not> isShown entities (nodeId baseId (path @ [quadrantAt lat lon b]))"
    using Suc.prems[rule_format, of 1] by simp
  have rest: "\<forall>k. 1 \<le> k \<and> k \<le> n \<longrightarrow>
      \<not> isShown entities (nodeId baseId ((path @ [quadrantAt lat lon b]) @ pointPath lat lon (holeBounds lat lon b) k))"
  proof (intro allI impI)
    fix k assume "1 \<le> k \<and> k \<le> n"
    then show "\<not> isShown entities
        (nodeId baseId ((path @ [quadrantAt lat lon b]) @ pointPath lat lon (holeBounds lat lon b) k))"
      using Suc.prems[rule_format, of "Suc k"] by simp
  qed
  show ?case
    unfolding findLeaf_Suc using first Suc.IH[OF rest] by simp
qed

lemma findLeaf_found:
  assumes "1 \<le> k" "k \<le> n"
    and "isShown entities (nodeId baseId (path @ pointPath lat lon b k))"
    and "\<forall>j. 1 \<le> j \<and> j < k \<longrightarrow> \<not> isShown entities (nodeId baseId (path @ pointPath lat lon b j))"
  shows "findLeaf st lat lon baseId n b path entities =
     splitTile st lat lon baseId (SPLIT_DEPTH st - (length path + k)) (length path + k)
       (regionAt b (pointPath lat lon b k)) (path @ pointPath lat lon b k)
       (removeByPrefix (removeEntity entities (nodeId baseId (path @ pointPath lat lon b k)))
          (nodeId baseId (path @ pointPath lat lon b k) @ ''_''))"
  using assms
proof (induction n arbitrary: b path k)
  case 0
  then show ?case by simp
next
  case (Suc n)
  show ?case
  proof (cases "k = 1")
    case True
    then have pp: "pointPath lat lon b k = [quadrantAt lat lon b]" by simp
    have r: "regionAt b [quadrantAt lat lon b] = holeBounds lat lon b"
      by (simp add: regionAt_Cons regionAt_Nil holeBounds_def)
    show ?thesis
      unfolding findLeaf_Suc pp r using Suc.prems(3) True by (simp add: pp)
  next
    case False
    with Suc.prems(1) obtain k' where k': "k = Suc k'" "1 \<le> k'" by (cases k) auto
    have first: "\<not> isShown entities (nodeId baseId (path @ [quadrantAt lat lon b]))"
      using Suc.prems(4)[rule_format, of 1] k' by simp
    have a: "k' \<le> n" using Suc.prems(2) k' by simp
    have b: "isShown entities
        (nodeId baseId ((path @ [quadrantAt lat lon b]) @ pointPath lat lon (holeBounds lat lon b) k'))"
      using Suc.prems(3) k' by simp
    have c: "\<forall>j. 1 \<le> j \<and> j < k' \<longrightarrow> \<not> isShown entities
        (nodeId baseId ((path @ [quadrantAt lat lon b]) @ pointPath lat lon (holeBounds lat lon b) j))"
    proof (intro allI impI)
      fix j assume "1 \<le> j \<and> j < k'"
      then show "\<not> isShown entities
          (nodeId baseId ((path @ [quadrantAt lat lon b]) @ pointPath lat lon (holeBounds lat lon b) j))"
        using Suc.prems(4)[rule_format, of "Suc j"] k' by simp
    qed
    show ?thesis
      unfolding findLeaf_Suc k'(1) pointPath_append_Suc regionAt_pointPath_Suc
      using first Suc.IH[OF k'(2) a b c] by simp
  qed
qed

subsection \<open>Geometry of a split\<close>

lemma quadrantOf_cases:
  assumes "q < 4"
  obtains "q = 0" "quadrantOf b q = \<lparr>west = west b, south = south b, east = centerLon b, north = centerLat b\<rparr>"
  | "q = 1" "quadrantOf b q = \<lparr>west = centerLon b, south = south b, east = east b, north = centerLat b\<rparr>"
  | "q = 2" "quadrantOf b q = \<lparr>west = west b, south = centerLat b, east = centerLon b, north = north b\<rparr>"
  | "q = 3" "quadrantOf b q = \<lparr>west = centerLon b, south = centerLat b, east = east b, north = north b\<rparr>"
proof -
  from quadrantOf_Some[OF assms, of b] have "quadrantBounds b q = Some (quadrantOf b q)" .
  then show ?thesis by (cases rule: quadrantBounds_cases) (use that in auto)
qed

lemma quadrantOf_nonDegenerate:
  assumes "q < 4" "nonDegenerate b"
  shows "nonDegenerate (quadrantOf b q)"
  by (rule quadrantOf_cases[OF assms(1), of b])
    (use assms(2) in \<open>simp_all add: nonDegenerate_def centerLat_def centerLon_def\<close>)

lemma quadrantOf_within:
  assumes "q < 4" "nonDegenerate b"
  shows "west b \<le> west (quadrantOf b q) \<and> east (quadrantOf b q) \<le> east b
       \<and> south b \<le> south (quadrantOf b q) \<and> north (quadrantOf b q) \<le> north b"
  by (rule quadrantOf_cases[OF assms(1), of b])
    (use assms(2) in \<open>simp_all add: nonDegenerate_def centerLat_def centerLon_def\<close>)

lemma strictlyInside_quadrantOf:
  assumes "q < 4" "strictlyInside (quadrantOf b q) lat lon"
  shows "quadrantAt lat lon b = q"
  using strictlyInside_quadrantAt[OF quadrantOf_Some[OF assms(1)] assms(2)] .

lemma validPath_Nil: "validPath []"
  by (simp add: validPath_def)

lemma validPath_Cons: "validPath (q # qs) \<longleftrightarrow> q < 4 \<and> validPath qs"
  by (simp add: validPath_def)

lemma validPath_append: "validPath (p @ p') \<longleftrightarrow> validPath p \<and> validPath p'"
  by (auto simp add: validPath_def)

lemma regionAt_nonDegenerate:
  assumes "validPath path" "nonDegenerate b"
  shows "nonDegenerate (regionAt b path)"
  using assms
proof (induction path arbitrary: b)
  case Nil
  then show ?case by (simp add: regionAt_Nil)
next
  case (Cons q qs)
  then show ?case
    by (simp add: regionAt_Cons validPath_Cons quadrantOf_nonDegenerate)
qed

lemma regionAt_within:
  assumes "validPath path" "nonDegenerate b"
  shows "west b \<le> west (regionAt b path) \<and> east (regionAt b path) \<le> east b
       \<and> south b \<le> south (regionAt b path) \<and> north (regionAt b path) \<le> north b"
  using assms
proof (induction path arbitrary: b)
  case Nil
  then show ?case by (simp add: regionAt_Nil)
next
  case (Cons q qs)
  from Cons.prems have q: "q < 4" and qs: "validPath qs" by (simp_all add: validPath_Cons)
  have nd: "nonDegenerate (quadrantOf b q)" using q Cons.prems(2) by (rule quadrantOf_nonDegenerate)
  from Cons.IH[OF qs nd] quadrantOf_within[OF q Cons.prems(2)]
  show ?case unfolding regionAt_Cons by linarith
qed

lemma strictlyInside_regionAt:
  assumes "validPath path" "nonDegenerate b" "strictlyInside (regionAt b path) lat lon"
  shows "strictlyInside b lat lon"
  using regionAt_within[OF assms(1,2)] assms(3) unfolding strictlyInside_def by linarith

lemma length_pointPath: "length (pointPath lat lon b n) = n"
  by (induction n arbitrary: b) simp_all

lemma validPath_pointPath: "validPath (pointPath lat lon b n)"
  by (induction n arbitrary: b) (simp_all add: validPath_Nil validPath_Cons quadrantAt_less_4)

lemma pointPath_add:
  "pointPath lat lon b (j + m)
     = pointPath lat lon b j @ pointPath lat lon (regionAt b (pointPath lat lon b j)) m"
proof (induction j arbitrary: b)
  case 0
  show ?case by (simp add: regionAt_Nil)
next
  case (Suc j)
  show ?case using Suc[of "holeBounds lat lon b"]
    by (simp add: regionAt_Cons holeBounds_def)
qed

lemma pointPath_unique:
  assumes "validPath path" "nonDegenerate b" "strictlyInside (regionAt b path) lat lon"
  shows "path = pointPath lat lon b (length path)"
  using assms
proof (induction path arbitrary: b)
  case Nil
  then show ?case by simp
next
  case (Cons q qs)
  from Cons.prems have q: "q < 4" and qs: "validPath qs" by (simp_all add: validPath_Cons)
  have nd: "nonDegenerate (quadrantOf b q)" using q Cons.prems(2) by (rule quadrantOf_nonDegenerate)
  have si: "strictlyInside (regionAt (quadrantOf b q) qs) lat lon"
    using Cons.prems(3) by (simp add: regionAt_Cons)
  have "strictlyInside (quadrantOf b q) lat lon"
    using strictlyInside_regionAt[OF qs nd si] .
  then have h: "quadrantAt lat lon b = q" using q by (intro strictlyInside_quadrantOf)
  then have hb: "holeBounds lat lon b = quadrantOf b q" by (simp add: holeBounds_def)
  from Cons.IH[OF qs nd si] show ?case by (simp add: h hb)
qed

lemma gapForDepth_pos: "0 < gapForDepth st depth"
  by (simp add: gapForDepth_def max_def)

lemma insetBounds_strictlyWithin:
  assumes "nonDegenerate b" "0 < g"
  shows "strictlyWithin (insetBounds b g) b"
  using assms by (simp add: strictlyWithin_def insetBounds_def Let_def nonDegenerate_def)

lemma strictlyWithin_inBounds:
  assumes "strictlyWithin a b" "inBounds a lat lon"
  shows "strictlyInside b lat lon"
  using assms unfolding strictlyWithin_def inBounds_def strictlyInside_def by linarith

lemma created_properties:
  assumes c: "created st lat lon baseId n level b path eid e" and nd: "nonDegenerate b"
  shows "shown e \<and> \<not> inBounds (rectangle e) lat lon
       \<and> (\<exists>path'. path' \<noteq> [] \<and> validPath path' \<and> length path' \<le> n \<and> eid = nodeId baseId (path @ path')
             \<and> strictlyWithin (rectangle e) (regionAt b path')
             \<and> path' \<noteq> pointPath lat lon b (length path'))"
proof -
  from c obtain k q where kq: "k < n" "q < 4"
      "q \<noteq> quadrantAt lat lon (regionAt b (pointPath lat lon b k))"
      "eid = nodeId baseId (path @ pointPath lat lon b k @ [q])"
      "e = quadrantEntity st (regionAt b (pointPath lat lon b k)) (level + k) q"
    unfolding created_def by blast
  let ?r = "regionAt b (pointPath lat lon b k)"
  let ?p = "pointPath lat lon b k @ [q]"
  have ndr: "nonDegenerate ?r" using validPath_pointPath nd by (rule regionAt_nonDegenerate)
  have ndq: "nonDegenerate (quadrantOf ?r q)" using kq(2) ndr by (rule quadrantOf_nonDegenerate)
  have sw: "strictlyWithin (rectangle e) (quadrantOf ?r q)"
    unfolding kq(5) quadrantEntity_def using insetBounds_strictlyWithin[OF ndq gapForDepth_pos] by simp
  have reg: "regionAt b ?p = quadrantOf ?r q" by (simp add: regionAt_snoc)
  have notin: "\<not> inBounds (rectangle e) lat lon"
  proof
    assume "inBounds (rectangle e) lat lon"
    with sw have "strictlyInside (quadrantOf ?r q) lat lon" by (rule strictlyWithin_inBounds)
    with kq(2) have "quadrantAt lat lon ?r = q" by (intro strictlyInside_quadrantOf)
    with kq(3) show False by simp
  qed
  have ne: "?p \<noteq> pointPath lat lon b (length ?p)"
  proof
    assume eq: "?p = pointPath lat lon b (length ?p)"
    have len: "length ?p = k + 1" by (simp add: length_pointPath)
    have pa: "pointPath lat lon b (k + 1) = pointPath lat lon b k @ [quadrantAt lat lon ?r]"
      unfolding pointPath_add by simp
    from eq[unfolded len pa] have "q = quadrantAt lat lon ?r" by simp
    with kq(3) show False by simp
  qed
  have "?p \<noteq> [] \<and> validPath ?p \<and> length ?p \<le> n \<and> eid = nodeId baseId (path @ ?p)
        \<and> strictlyWithin (rectangle e) (regionAt b ?p) \<and> ?p \<noteq> pointPath lat lon b (length ?p)"
    using kq(1,2,4) sw ne unfolding reg
    by (simp add: validPath_append validPath_pointPath validPath_Cons validPath_Nil length_pointPath)
  then have "\<exists>path'. path' \<noteq> [] \<and> validPath path' \<and> length path' \<le> n \<and> eid = nodeId baseId (path @ path')
             \<and> strictlyWithin (rectangle e) (regionAt b path')
             \<and> path' \<noteq> pointPath lat lon b (length path')"
    by (rule exI[of _ ?p])
  moreover have "shown e" unfolding kq(5) quadrantEntity_def by simp
  ultimately show ?thesis using notin by blast
qed

subsection \<open>The tile of a point and the nodes on its way\<close>

lemma latLonToTile_valid:
  assumes "saneSettings st"
  shows "validTile st (row (latLonToTile lat lon (gridConfig st))) (col (latLonToTile lat lon (gridConfig st)))"
proof -
  have "0 < latCount (gridConfig st)" "0 < lonCount (gridConfig st)"
    using assms by (simp_all add: saneSettings_def)
  then show ?thesis
    unfolding validTile_def latLonToTile_def Let_def TileId.simps by linarith
qed

lemma latLonToTile_eta:
  "\<lparr>row = row (latLonToTile lat lon cfg), col = col (latLonToTile lat lon cfg)\<rparr> = latLonToTile lat lon cfg"
  by simp

lemma tileBounds_nonDegenerate:
  assumes "saneSettings st"
  shows "nonDegenerate (tileBounds r c (gridConfig st) 0)"
  using assms by (simp add: saneSettings_def nonDegenerate_def tileBounds_raw)

lemma baseBoundsAt_nonDegenerate: "saneSettings st \<Longrightarrow> nonDegenerate (baseBoundsAt st lat lon)"
  unfolding baseBoundsAt_def by (rule tileBounds_nonDegenerate)

lemma wayBounds_nonDegenerate: "saneSettings st \<Longrightarrow> nonDegenerate (wayBounds st lat lon k)"
  unfolding wayBounds_def pathAt_def
  using validPath_pointPath baseBoundsAt_nonDegenerate by (rule regionAt_nonDegenerate)

lemma pathAt_0: "pathAt st lat lon 0 = []"
  by (simp add: pathAt_def)

lemma wayId_0: "wayId st lat lon 0 = baseIdAt st lat lon"
  by (simp add: wayId_def pathAt_0 nodeId_Nil)

lemma wayBounds_0: "wayBounds st lat lon 0 = baseBoundsAt st lat lon"
  by (simp add: wayBounds_def pathAt_0 regionAt_Nil)

lemma length_pathAt: "length (pathAt st lat lon k) = k"
  by (simp add: pathAt_def length_pointPath)

lemma validPath_pathAt: "validPath (pathAt st lat lon k)"
  by (simp add: pathAt_def validPath_pointPath)

lemma pathAt_add:
  "pathAt st lat lon (j + m) = pathAt st lat lon j @ pointPath lat lon (wayBounds st lat lon j) m"
  unfolding pathAt_def wayBounds_def by (rule pointPath_add)

lemma wayId_prefix:
  assumes "j < k"
  shows "prefix (wayId st lat lon j @ ''_'') (wayId st lat lon k)"
proof -
  define m where "m = k - j - 1"
  have k: "k = j + Suc m" using assms by (simp add: m_def)
  have ne: "pointPath lat lon (wayBounds st lat lon j) (Suc m) \<noteq> []" by simp
  have pk: "pathAt st lat lon (j + Suc m)
      = pathAt st lat lon j @ pointPath lat lon (wayBounds st lat lon j) (Suc m)"
    by (rule pathAt_add)
  have "prefix (nodeId (baseIdAt st lat lon) (pathAt st lat lon j) @ ''_'')
      (nodeId (baseIdAt st lat lon) (pathAt st lat lon j @ pointPath lat lon (wayBounds st lat lon j) (Suc m)))"
    using ne by (rule prefix_nodeId_underscore)
  then show ?thesis
    by (simp only: wayId_def k pk)
qed



lemma digit_step_eq:
  assumes "q < 4" "q' < 4"
    and "(CHR ''_'' # natToString q) @ xs = (CHR ''_'' # natToString q') @ ys"
  shows "q = q' \<and> xs = ys"
proof -
  have d: "natToString q = [digitChar q]" "natToString q' = [digitChar q']"
    using assms(1,2) by (simp_all add: natToString_digit)
  from assms(3) have "digitChar q = digitChar q'" "xs = ys" unfolding d by simp_all
  moreover have "q < 10" "q' < 10" using assms(1,2) by simp_all
  ultimately show ?thesis using digitChar_inj by blast
qed

lemma nodeId_inj:
  assumes "validPath p" "validPath p'" "nodeId baseId p = nodeId baseId p'"
  shows "p = p'"
proof -
  have "concat (map (\<lambda>q. CHR ''_'' # natToString q) p) = concat (map (\<lambda>q. CHR ''_'' # natToString q) p')"
    using assms(3) by (simp add: nodeId_def)
  with assms(1,2) show ?thesis
  proof (induction p arbitrary: p')
    case Nil
    then show ?case by (cases p') simp_all
  next
    case (Cons q qs)
    show ?case
    proof (cases p')
      case Nil
      with Cons.prems show ?thesis by simp
    next
      case (Cons q' qs')
      with Cons.prems have v: "q < 4" "q' < 4" "validPath qs" "validPath qs'"
        by (simp_all add: validPath_Cons)
      from Cons.prems(3) have "(CHR ''_'' # natToString q) @ concat (map (\<lambda>q. CHR ''_'' # natToString q) qs)
          = (CHR ''_'' # natToString q') @ concat (map (\<lambda>q. CHR ''_'' # natToString q) qs')"
        unfolding Cons by simp
      from digit_step_eq[OF v(1,2) this] Cons.IH[OF v(3,4)] show ?thesis
        unfolding Cons by simp
    qed
  qed
qed



lemma wellFormed_entity:
  assumes "wellFormed st entities" "entities eid = Some e"
  shows "shown e"
    and "\<exists>r c path. validTile st r c \<and> validPath path \<and> length path \<le> SPLIT_DEPTH st
           \<and> eid = nodeId (tileIdToString \<lparr>row = r, col = c\<rparr>) path
           \<and> strictlyWithin (rectangle e) (regionAt (tileBounds r c (gridConfig st) 0) path)"
proof -
  from assms(1) have "\<forall>eid e. entities eid = Some e \<longrightarrow>
        shown e \<and>
        (\<exists>r c path. validTile st r c \<and> validPath path \<and> length path \<le> SPLIT_DEPTH st
           \<and> eid = nodeId (tileIdToString \<lparr>row = r, col = c\<rparr>) path
           \<and> strictlyWithin (rectangle e) (regionAt (tileBounds r c (gridConfig st) 0) path))"
    unfolding wellFormed_def by (rule conjunct1)
  from this[rule_format, OF assms(2)]
  show "shown e"
    and "\<exists>r c path. validTile st r c \<and> validPath path \<and> length path \<le> SPLIT_DEPTH st
           \<and> eid = nodeId (tileIdToString \<lparr>row = r, col = c\<rparr>) path
           \<and> strictlyWithin (rectangle e) (regionAt (tileBounds r c (gridConfig st) 0) path)"
    by (rule conjunct1, rule conjunct2)
qed

lemma wellFormed_tile:
  assumes "wellFormed st entities" "validTile st r c"
    and "entities (tileIdToString \<lparr>row = r, col = c\<rparr>) \<noteq> None"
    and "prefix (tileIdToString \<lparr>row = r, col = c\<rparr> @ ''_'') eid"
  shows "entities eid = None"
proof -
  from assms(1) have "\<forall>r c eid. validTile st r c \<and> entities (tileIdToString \<lparr>row = r, col = c\<rparr>) \<noteq> None
           \<and> prefix (tileIdToString \<lparr>row = r, col = c\<rparr> @ ''_'') eid
           \<longrightarrow> entities eid = None"
    unfolding wellFormed_def by (rule conjunct2)
  from this[rule_format, of r c eid] assms(2,3,4) show ?thesis by simp
qed

lemma tile_of_interior:
  assumes sane: "saneSettings st" and v: "validTile st r c"
    and si: "strictlyInside (tileBounds r c (gridConfig st) 0) lat lon"
  shows "latLonToTile lat lon (gridConfig st) = \<lparr>row = r, col = c\<rparr>"
proof (rule latLonToTile_cell)
  show "0 < latCount (gridConfig st)" "0 < lonCount (gridConfig st)"
    using sane by (simp_all add: saneSettings_def)
  show "0 \<le> r" "r < latCount (gridConfig st)" "0 \<le> c" "c < lonCount (gridConfig st)"
    using v by (simp_all add: validTile_def)
  show "south (tileBounds r c (gridConfig st) 0) \<le> lat" "lat < north (tileBounds r c (gridConfig st) 0)"
    "west (tileBounds r c (gridConfig st) 0) \<le> lon" "lon < east (tileBounds r c (gridConfig st) 0)"
    using si unfolding strictlyInside_def by linarith+
qed

lemma locate_entity:
  assumes wf: "wellFormed st entities" and sane: "saneSettings st"
    and e: "entities eid = Some e" and inb: "inBounds (rectangle e) lat lon"
  shows "\<exists>k \<le> SPLIT_DEPTH st. eid = wayId st lat lon k"
proof -
  from wellFormed_entity(2)[OF wf e]
  obtain r c path where rc: "validTile st r c" "validPath path" "length path \<le> SPLIT_DEPTH st"
      "eid = nodeId (tileIdToString \<lparr>row = r, col = c\<rparr>) path"
      "strictlyWithin (rectangle e) (regionAt (tileBounds r c (gridConfig st) 0) path)"
    by blast
  let ?tb = "tileBounds r c (gridConfig st) 0"
  have nd: "nonDegenerate ?tb" using sane by (rule tileBounds_nonDegenerate)
  have si: "strictlyInside (regionAt ?tb path) lat lon"
    using rc(5) inb by (rule strictlyWithin_inBounds)
  have "strictlyInside ?tb lat lon"
    using rc(2) nd si by (rule strictlyInside_regionAt)
  with sane rc(1) have t: "latLonToTile lat lon (gridConfig st) = \<lparr>row = r, col = c\<rparr>"
    by (rule tile_of_interior)
  have bb: "baseBoundsAt st lat lon = ?tb" "baseIdAt st lat lon = tileIdToString \<lparr>row = r, col = c\<rparr>"
    unfolding baseBoundsAt_def baseIdAt_def t by simp_all
  have "path = pointPath lat lon ?tb (length path)"
    using rc(2) nd si by (rule pointPath_unique)
  then have "eid = wayId st lat lon (length path)"
    unfolding wayId_def pathAt_def bb using rc(4) by simp
  with rc(3) show ?thesis by blast
qed

subsection \<open>What one invocation does to the registry\<close>

lemma removeOrSplitTileAt_unfold:
  "removeOrSplitTileAt st lat lon entities =
     (if isShown entities (baseIdAt st lat lon) then
        splitTile st lat lon (baseIdAt st lat lon) (SPLIT_DEPTH st) 0 (baseBoundsAt st lat lon) []
          (removeEntity entities (baseIdAt st lat lon))
      else findLeaf st lat lon (baseIdAt st lat lon) (SPLIT_DEPTH st) (baseBoundsAt st lat lon) [] entities)"
  unfolding removeOrSplitTileAt_def Let_def isShown_def baseIdAt_def baseBoundsAt_def by (rule refl)

lemma isShown_iff:
  assumes "wellFormed st entities"
  shows "isShown entities eid \<longleftrightarrow> entities eid \<noteq> None"
proof (cases "entities eid")
  case None
  then show ?thesis by (simp add: isShown_def getById_def)
next
  case (Some e)
  with wellFormed_entity(1)[OF assms Some] show ?thesis by (simp add: isShown_def getById_def)
qed

lemma removeByPrefix_Some:
  "removeByPrefix (removeEntity entities x) pre eid = Some e \<longleftrightarrow>
     entities eid = Some e \<and> eid \<noteq> x \<and> \<not> prefix pre eid"
  by (simp add: removeByPrefix_def removeEntity_def)

lemma split_at_graph:
  "\<exists>ents'. splitTile st lat lon baseId n level b path
              (removeByPrefix (removeEntity entities (nodeId baseId path)) (nodeId baseId path @ ''_'')) = Inr ents'
     \<and> (\<forall>eid e. ents' eid = Some e \<longleftrightarrow>
           (entities eid = Some e \<and> eid \<noteq> nodeId baseId path \<and> \<not> prefix (nodeId baseId path @ ''_'') eid)
           \<or> created st lat lon baseId n level b path eid e)"
proof -
  let ?e2 = "removeByPrefix (removeEntity entities (nodeId baseId path)) (nodeId baseId path @ ''_'')"
  have "\<forall>eid. prefix (nodeId baseId path @ ''_'') eid \<longrightarrow> ?e2 eid = None"
    by (simp add: removeByPrefix_def)
  from splitTile_graph[OF this, of st lat lon n level b]
  show ?thesis unfolding removeByPrefix_Some .
qed

lemma op_cases:
  assumes wf: "wellFormed st entities" and sane: "saneSettings st"
  obtains (unchanged) "removeOrSplitTileAt st lat lon entities = Inr entities"
      "\<forall>j \<le> SPLIT_DEPTH st. entities (wayId st lat lon j) = None"
  | (split) k ents' where "k \<le> SPLIT_DEPTH st"
      "removeOrSplitTileAt st lat lon entities = Inr ents'"
      "entities (wayId st lat lon k) \<noteq> None"
      "\<forall>j<k. entities (wayId st lat lon j) = None"
      "\<forall>eid e. ents' eid = Some e \<longleftrightarrow>
         (entities eid = Some e \<and> eid \<noteq> wayId st lat lon k \<and> \<not> prefix (wayId st lat lon k @ ''_'') eid)
         \<or> created st lat lon (baseIdAt st lat lon) (SPLIT_DEPTH st - k) k
              (wayBounds st lat lon k) (pathAt st lat lon k) eid e"
proof -
  let ?B = "baseIdAt st lat lon"
  let ?tb = "baseBoundsAt st lat lon"
  let ?D = "SPLIT_DEPTH st"
  note sh = isShown_iff[OF wf]
  show ?thesis
  proof (cases "\<exists>k \<le> ?D. entities (wayId st lat lon k) \<noteq> None")
    case False
    then have none: "\<forall>j \<le> ?D. entities (wayId st lat lon j) = None" by blast
    then have b: "\<not> isShown entities ?B"
      unfolding sh using wayId_0[of st lat lon] by (metis le0)
    have "\<forall>k. 1 \<le> k \<and> k \<le> ?D \<longrightarrow> \<not> isShown entities (nodeId ?B ([] @ pointPath lat lon ?tb k))"
      using none unfolding sh wayId_def pathAt_def by simp
    then have "findLeaf st lat lon ?B ?D ?tb [] entities = Inr entities"
      by (rule findLeaf_none)
    then have "removeOrSplitTileAt st lat lon entities = Inr entities"
      unfolding removeOrSplitTileAt_unfold using b by simp
    then show ?thesis using none by (rule unchanged)
  next
    case True
    then have "\<exists>k. k \<le> ?D \<and> entities (wayId st lat lon k) \<noteq> None" by blast
    then obtain k where k: "k \<le> ?D \<and> entities (wayId st lat lon k) \<noteq> None"
      and least: "\<forall>j<k. \<not> (j \<le> ?D \<and> entities (wayId st lat lon j) \<noteq> None)"
      using exists_least_iff[of "\<lambda>k. k \<le> ?D \<and> entities (wayId st lat lon k) \<noteq> None"] by blast
    have below: "\<forall>j<k. entities (wayId st lat lon j) = None"
      using least k by auto
    from split_at_graph[of st lat lon ?B "?D - k" k "wayBounds st lat lon k" "pathAt st lat lon k" entities]
    obtain ents' where ents':
      "splitTile st lat lon ?B (?D - k) k (wayBounds st lat lon k) (pathAt st lat lon k)
         (removeByPrefix (removeEntity entities (wayId st lat lon k)) (wayId st lat lon k @ ''_'')) = Inr ents'"
      "\<forall>eid e. ents' eid = Some e \<longleftrightarrow>
         (entities eid = Some e \<and> eid \<noteq> wayId st lat lon k \<and> \<not> prefix (wayId st lat lon k @ ''_'') eid)
         \<or> created st lat lon ?B (?D - k) k (wayBounds st lat lon k) (pathAt st lat lon k) eid e"
      unfolding wayId_def by blast
    have run: "removeOrSplitTileAt st lat lon entities = Inr ents'"
    proof (cases "k = 0")
      case True
      have shown: "isShown entities ?B" unfolding sh using k True wayId_0[of st lat lon] by simp
      have "validTile st (row (latLonToTile lat lon (gridConfig st))) (col (latLonToTile lat lon (gridConfig st)))"
        using sane by (rule latLonToTile_valid)
      moreover have tid: "tileIdToString \<lparr>row = row (latLonToTile lat lon (gridConfig st)),
          col = col (latLonToTile lat lon (gridConfig st))\<rparr> = ?B"
        unfolding baseIdAt_def latLonToTile_eta by (rule refl)
      ultimately have nodesc: "prefix (?B @ ''_'') eid \<Longrightarrow> entities eid = None" for eid
        using wellFormed_tile[OF wf, of "row (latLonToTile lat lon (gridConfig st))"
            "col (latLonToTile lat lon (gridConfig st))" eid] shown
        unfolding sh by simp
      have same: "removeByPrefix (removeEntity entities ?B) (?B @ ''_'') = removeEntity entities ?B"
      proof (rule ext)
        fix eid
        show "removeByPrefix (removeEntity entities ?B) (?B @ ''_'') eid = removeEntity entities ?B eid"
          using nodesc[of eid] by (simp add: removeByPrefix_def removeEntity_def)
      qed
      show ?thesis
        unfolding removeOrSplitTileAt_unfold
        using shown ents'(1) unfolding True wayId_0 wayBounds_0 pathAt_0 same by simp
    next
      case False
      then have k1: "1 \<le> k" by simp
      have b: "\<not> isShown entities ?B"
        unfolding sh using below False wayId_0[of st lat lon] by (metis neq0_conv)
      have f: "isShown entities (nodeId ?B ([] @ pointPath lat lon ?tb k))"
        unfolding sh using k unfolding wayId_def pathAt_def by simp
      have g: "\<forall>j. 1 \<le> j \<and> j < k \<longrightarrow> \<not> isShown entities (nodeId ?B ([] @ pointPath lat lon ?tb j))"
        unfolding sh using below unfolding wayId_def pathAt_def by simp
      have kD: "k \<le> ?D" using k by simp
      from findLeaf_found[OF k1 kD f g, of st]
      have "findLeaf st lat lon ?B ?D ?tb [] entities = Inr ents'"
        using ents'(1) unfolding wayId_def wayBounds_def pathAt_def by simp
      then show ?thesis
        unfolding removeOrSplitTileAt_unfold using b by simp
    qed
    from k have kk: "k \<le> ?D" "entities (wayId st lat lon k) \<noteq> None" by simp_all
    show ?thesis by (rule split[OF kk(1) run kk(2) below ents'(2)])
  qed
qed

subsection \<open>Identifiers of different tiles\<close>

lemma takeWhile_digits_end:
  assumes "list_all isDigit g" "x = [] \<or> hd x = CHR ''_''"
  shows "takeWhile isDigit (g @ x) = g" "dropWhile isDigit (g @ x) = x"
proof -
  have nd: "\<not> isDigit (CHR ''_'')" by (simp add: isDigit_def)
  show "takeWhile isDigit (g @ x) = g"
    using assms nd by (cases x) (simp_all add: list_all_iff takeWhile_append2)
  show "dropWhile isDigit (g @ x) = x"
    using assms nd by (cases x) (simp_all add: list_all_iff dropWhile_append2)
qed

lemma tile_string_split:
  assumes d: "list_all isDigit d1" "list_all isDigit d2" "list_all isDigit d1'" "list_all isDigit d2'"
    and x: "x = [] \<or> hd x = CHR ''_''" "x' = [] \<or> hd x' = CHR ''_''"
    and eq: "''tile_'' @ d1 @ ''_'' @ d2 @ x = ''tile_'' @ d1' @ ''_'' @ d2' @ x'"
  shows "d1 = d1' \<and> d2 = d2' \<and> x = x'"
proof -
  from eq have e1: "d1 @ CHR ''_'' # (d2 @ x) = d1' @ CHR ''_'' # (d2' @ x')" by simp
  have "takeWhile isDigit (d1 @ CHR ''_'' # (d2 @ x)) = d1"
    "takeWhile isDigit (d1' @ CHR ''_'' # (d2' @ x')) = d1'"
    using d(1,3) by (simp_all add: takeWhile_digits_underscore)
  with e1 have a: "d1 = d1'" by simp
  with e1 have e2: "d2 @ x = d2' @ x'" by simp
  have "takeWhile isDigit (d2 @ x) = d2" "takeWhile isDigit (d2' @ x') = d2'"
    using takeWhile_digits_end(1)[OF d(2) x(1)] takeWhile_digits_end(1)[OF d(4) x(2)] by simp_all
  with e2 have b: "d2 = d2'" by simp
  with e2 have "x = x'" by simp
  with a b show ?thesis by simp
qed

lemma tileIdToString_nonneg:
  assumes "0 \<le> r" "0 \<le> c"
  shows "tileIdToString \<lparr>row = r, col = c\<rparr> = ''tile_'' @ natToString (nat r) @ ''_'' @ natToString (nat c) @ []"
  using assms by (simp add: tileIdToString_def numberToString_def)

lemma path_suffix_shape:
  "concat (map (\<lambda>q. CHR ''_'' # natToString q) p) = []
   \<or> hd (concat (map (\<lambda>q. CHR ''_'' # natToString q) p)) = CHR ''_''"
  by (cases p) simp_all

lemma path_suffix_empty: "concat (map (\<lambda>q. CHR ''_'' # natToString q) p) = [] \<longleftrightarrow> p = []"
  by (cases p) simp_all

lemma nodeId_other_tile:
  assumes "0 \<le> r" "0 \<le> c" "0 \<le> r'" "0 \<le> c'"
    and "prefix (tileIdToString \<lparr>row = r, col = c\<rparr> @ ''_'') (nodeId (tileIdToString \<lparr>row = r', col = c'\<rparr>) p)"
  shows "tileIdToString \<lparr>row = r, col = c\<rparr> = tileIdToString \<lparr>row = r', col = c'\<rparr>"
proof -
  from assms(5) obtain rest where
    "nodeId (tileIdToString \<lparr>row = r', col = c'\<rparr>) p = (tileIdToString \<lparr>row = r, col = c\<rparr> @ ''_'') @ rest"
    unfolding prefix_def by blast
  then have "''tile_'' @ natToString (nat r') @ ''_'' @ natToString (nat c')
        @ concat (map (\<lambda>q. CHR ''_'' # natToString q) p)
      = ''tile_'' @ natToString (nat r) @ ''_'' @ natToString (nat c) @ (CHR ''_'' # rest)"
    unfolding nodeId_def tileIdToString_nonneg[OF assms(1,2)] tileIdToString_nonneg[OF assms(3,4)]
    by simp
  from tile_string_split[OF natToString_digits natToString_digits natToString_digits natToString_digits
      path_suffix_shape _ this]
  have "natToString (nat r') = natToString (nat r) \<and> natToString (nat c') = natToString (nat c)"
    by simp
  then show ?thesis
    unfolding tileIdToString_nonneg[OF assms(1,2)] tileIdToString_nonneg[OF assms(3,4)] by simp
qed

lemma nodeId_is_tile:
  assumes "0 \<le> r" "0 \<le> c" "0 \<le> r'" "0 \<le> c'"
    and "nodeId (tileIdToString \<lparr>row = r', col = c'\<rparr>) p = tileIdToString \<lparr>row = r, col = c\<rparr>"
  shows "p = []"
proof -
  from assms(5) have "''tile_'' @ natToString (nat r') @ ''_'' @ natToString (nat c')
        @ concat (map (\<lambda>q. CHR ''_'' # natToString q) p)
      = ''tile_'' @ natToString (nat r) @ ''_'' @ natToString (nat c) @ []"
    unfolding nodeId_def tileIdToString_nonneg[OF assms(1,2)] tileIdToString_nonneg[OF assms(3,4)]
    by simp
  from tile_string_split[OF natToString_digits natToString_digits natToString_digits natToString_digits
      path_suffix_shape _ this]
  have "concat (map (\<lambda>q. CHR ''_'' # natToString q) p) = []" by simp
  then show ?thesis by (simp only: path_suffix_empty)
qed

subsection \<open>No entity at the point, and the registry stays well formed\<close>

lemma regionAt_append: "regionAt b (p @ p') = regionAt (regionAt b p) p'"
  by (simp add: regionAt_def)

lemma created_not_on_way:
  assumes sane: "saneSettings st" and kD: "k \<le> m"
    and c: "created st lat lon (baseIdAt st lat lon) n k (wayBounds st lat lon k) (pathAt st lat lon k) eid e"
  shows "eid \<noteq> wayId st lat lon m"
proof
  assume eq: "eid = wayId st lat lon m"
  from created_properties[OF c wayBounds_nonDegenerate[OF sane]]
  obtain path' where p: "path' \<noteq> []" "validPath path'"
      "eid = nodeId (baseIdAt st lat lon) (pathAt st lat lon k @ path')"
      "path' \<noteq> pointPath lat lon (wayBounds st lat lon k) (length path')"
    by blast
  have v: "validPath (pathAt st lat lon k @ path')"
    using p(2) by (simp add: validPath_append validPath_pathAt)
  from p(3) eq have "nodeId (baseIdAt st lat lon) (pathAt st lat lon k @ path')
      = nodeId (baseIdAt st lat lon) (pathAt st lat lon m)"
    by (simp add: wayId_def)
  from nodeId_inj[OF v validPath_pathAt this]
  have pm: "pathAt st lat lon k @ path' = pathAt st lat lon m" .
  then have "k + length path' = m"
    using length_pathAt[of st lat lon m] length_pathAt[of st lat lon k]
    by (metis length_append)
  then have "pathAt st lat lon m
      = pathAt st lat lon k @ pointPath lat lon (wayBounds st lat lon k) (length path')"
    using pathAt_add[of st lat lon k "length path'"] by simp
  with pm have "path' = pointPath lat lon (wayBounds st lat lon k) (length path')" by simp
  with p(4) show False by simp
qed

lemma no_entity_at_point:
  assumes wf: "wellFormed st entities" and sane: "saneSettings st"
  shows "\<exists>ents'. removeOrSplitTileAt st lat lon entities = Inr ents'
           \<and> (\<forall>eid e. ents' eid = Some e \<longrightarrow> \<not> inBounds (rectangle e) lat lon)
           \<and> ents' (wayId st lat lon (SPLIT_DEPTH st)) = None"
proof (cases rule: op_cases[OF wf sane, of lat lon, case_names unchanged split])
  case unchanged
  have "\<not> inBounds (rectangle e) lat lon" if "entities eid = Some e" for eid e
  proof
    assume "inBounds (rectangle e) lat lon"
    from locate_entity[OF wf sane that this] unchanged(2) that show False by auto
  qed
  moreover have "entities (wayId st lat lon (SPLIT_DEPTH st)) = None"
    using unchanged(2) by simp
  ultimately show ?thesis using unchanged(1) by blast
next
  case (split k ents')
  note nd = wayBounds_nonDegenerate[OF sane, of lat lon k]
  have a: "\<not> inBounds (rectangle e) lat lon" if s: "ents' eid = Some e" for eid e
  proof
    assume inb: "inBounds (rectangle e) lat lon"
    from split(5)[rule_format, of eid e] s
    consider (old) "entities eid = Some e" "eid \<noteq> wayId st lat lon k"
        "\<not> prefix (wayId st lat lon k @ ''_'') eid"
      | (new) "created st lat lon (baseIdAt st lat lon) (SPLIT_DEPTH st - k) k
          (wayBounds st lat lon k) (pathAt st lat lon k) eid e"
      by blast
    then show False
    proof cases
      case old
      from locate_entity[OF wf sane old(1) inb]
      obtain j where j: "j \<le> SPLIT_DEPTH st" "eid = wayId st lat lon j" by blast
      consider "j < k" | "j = k" | "k < j" by linarith
      then show False
      proof cases
        case 1
        with split(4) j(2) old(1) show False by simp
      next
        case 2
        with j(2) old(2) show False by simp
      next
        case 3
        from wayId_prefix[OF this, of st lat lon] j(2) old(3) show False by simp
      qed
    next
      case new
      from created_properties[OF new nd] inb show False by blast
    qed
  qed
  have b: "ents' (wayId st lat lon (SPLIT_DEPTH st)) = None"
  proof (cases "ents' (wayId st lat lon (SPLIT_DEPTH st))")
    case None
    then show ?thesis .
  next
    case (Some e)
    from split(5)[rule_format, of "wayId st lat lon (SPLIT_DEPTH st)" e] Some
    consider (old) "wayId st lat lon (SPLIT_DEPTH st) \<noteq> wayId st lat lon k"
        "\<not> prefix (wayId st lat lon k @ ''_'') (wayId st lat lon (SPLIT_DEPTH st))"
      | (new) "created st lat lon (baseIdAt st lat lon) (SPLIT_DEPTH st - k) k
          (wayBounds st lat lon k) (pathAt st lat lon k) (wayId st lat lon (SPLIT_DEPTH st)) e"
      by blast
    then have False
    proof cases
      case old
      from old(1) split(1) have "k < SPLIT_DEPTH st" by (cases "k = SPLIT_DEPTH st") auto
      from wayId_prefix[OF this, of st lat lon] old(2) show False by simp
    next
      case new
      from created_not_on_way[OF sane split(1) new] show False by simp
    qed
    then show ?thesis ..
  qed
  from split(2) a b show ?thesis by blast
qed

lemma wellFormed_preserved:
  assumes wf: "wellFormed st entities" and sane: "saneSettings st"
    and run: "removeOrSplitTileAt st lat lon entities = Inr entities'"
  shows "wellFormed st entities'"
proof (cases rule: op_cases[OF wf sane, of lat lon, case_names unchanged split])
  case unchanged
  with run wf show ?thesis by simp
next
  case (split k ents')
  with run have same: "ents' = entities'" by simp
  let ?t = "latLonToTile lat lon (gridConfig st)"
  let ?B = "baseIdAt st lat lon"
  have vt: "validTile st (row ?t) (col ?t)" using sane by (rule latLonToTile_valid)
  have tid: "tileIdToString \<lparr>row = row ?t, col = col ?t\<rparr> = ?B"
    unfolding baseIdAt_def latLonToTile_eta by (rule refl)
  have tb: "tileBounds (row ?t) (col ?t) (gridConfig st) 0 = baseBoundsAt st lat lon"
    by (simp add: baseBoundsAt_def)
  note nd = wayBounds_nonDegenerate[OF sane, of lat lon k]
  note graph = split(5)[unfolded same]
  have new_shape: "\<exists>path. path \<noteq> [] \<and> validPath path \<and> length path \<le> SPLIT_DEPTH st
        \<and> eid = nodeId ?B path
        \<and> strictlyWithin (rectangle e) (regionAt (baseBoundsAt st lat lon) path) \<and> shown e"
    if c: "created st lat lon ?B (SPLIT_DEPTH st - k) k (wayBounds st lat lon k) (pathAt st lat lon k) eid e"
    for eid e
  proof -
    from created_properties[OF c nd]
    obtain path' where p: "shown e" "path' \<noteq> []" "validPath path'" "length path' \<le> SPLIT_DEPTH st - k"
      "eid = nodeId ?B (pathAt st lat lon k @ path')"
      "strictlyWithin (rectangle e) (regionAt (wayBounds st lat lon k) path')"
      by blast
    let ?p = "pathAt st lat lon k @ path'"
    have "?p \<noteq> []" using p(2) by simp
    moreover have "validPath ?p" using p(3) by (simp add: validPath_append validPath_pathAt)
    moreover have "length ?p \<le> SPLIT_DEPTH st" using p(4) split(1) by (simp add: length_pathAt)
    moreover have "strictlyWithin (rectangle e) (regionAt (baseBoundsAt st lat lon) ?p)"
      using p(6) unfolding regionAt_append wayBounds_def .
    ultimately show ?thesis using p(1,5) by blast
  qed
  have part1: "shown e \<and>
        (\<exists>r c path. validTile st r c \<and> validPath path \<and> length path \<le> SPLIT_DEPTH st
           \<and> eid = nodeId (tileIdToString \<lparr>row = r, col = c\<rparr>) path
           \<and> strictlyWithin (rectangle e) (regionAt (tileBounds r c (gridConfig st) 0) path))"
    if s: "entities' eid = Some e" for eid e
  proof -
    from graph[rule_format, of eid e] s
    consider (old) "entities eid = Some e"
      | (new) "created st lat lon ?B (SPLIT_DEPTH st - k) k (wayBounds st lat lon k) (pathAt st lat lon k) eid e"
      by blast
    then show ?thesis
    proof cases
      case old
      from wellFormed_entity[OF wf old] show ?thesis by blast
    next
      case new
      from new_shape[OF new] obtain path where p: "validPath path" "length path \<le> SPLIT_DEPTH st"
        "eid = nodeId ?B path" "strictlyWithin (rectangle e) (regionAt (baseBoundsAt st lat lon) path)"
        "shown e" by blast
      have "validTile st (row ?t) (col ?t) \<and> validPath path \<and> length path \<le> SPLIT_DEPTH st
           \<and> eid = nodeId (tileIdToString \<lparr>row = row ?t, col = col ?t\<rparr>) path
           \<and> strictlyWithin (rectangle e) (regionAt (tileBounds (row ?t) (col ?t) (gridConfig st) 0) path)"
        unfolding tid tb using vt p by simp
      then show ?thesis using p(5) by blast
    qed
  qed
  have part2: "entities' eid = None"
    if v: "validTile st r c" and present: "entities' (tileIdToString \<lparr>row = r, col = c\<rparr>) \<noteq> None"
      and pre: "prefix (tileIdToString \<lparr>row = r, col = c\<rparr> @ ''_'') eid" for r c eid
  proof (cases "entities' eid")
    case None
    then show ?thesis .
  next
    case (Some e)
    let ?T = "tileIdToString \<lparr>row = r, col = c\<rparr>"
    have nn: "0 \<le> r" "0 \<le> c" "0 \<le> row ?t" "0 \<le> col ?t"
      using v vt by (simp_all add: validTile_def)
    from present obtain e0 where e0: "entities' ?T = Some e0" by blast
    have old0: "entities ?T = Some e0 \<and> ?T \<noteq> wayId st lat lon k"
    proof -
      from graph[rule_format, of ?T e0] e0
      consider (old) "entities ?T = Some e0" "?T \<noteq> wayId st lat lon k"
        | (new) "created st lat lon ?B (SPLIT_DEPTH st - k) k (wayBounds st lat lon k) (pathAt st lat lon k) ?T e0"
        by blast
      then show ?thesis
      proof cases
        case old
        then show ?thesis by simp
      next
        case new
        from new_shape[OF new] obtain path where p: "path \<noteq> []" "?T = nodeId ?B path" by blast
        from nodeId_is_tile[OF nn(1,2,3,4), of path] p(2) tid have "path = []" by simp
        with p(1) show ?thesis by simp
      qed
    qed
    from graph[rule_format, of eid e] Some
    consider (old) "entities eid = Some e"
      | (new) "created st lat lon ?B (SPLIT_DEPTH st - k) k (wayBounds st lat lon k) (pathAt st lat lon k) eid e"
      by blast
    then have False
    proof cases
      case old
      from wellFormed_tile[OF wf v _ pre] old0 old show False by simp
    next
      case new
      from new_shape[OF new] obtain path where p: "eid = nodeId ?B path" by blast
      from nodeId_other_tile[OF nn(1,2,3,4), of path] pre p tid have TB: "?T = ?B" by simp
      have "k = 0"
      proof (rule ccontr)
        assume "k \<noteq> 0"
        then have "entities (wayId st lat lon 0) = None" using split(4) by simp
        with old0 TB show False by (simp add: wayId_0)
      qed
      with old0 TB show False by (simp add: wayId_0)
    qed
    then show ?thesis ..
  qed
  show ?thesis
    unfolding wellFormed_def using part1 part2 by blast
qed

subsection \<open>The node that an invocation splits\<close>








subsection \<open>The registry at start-up\<close>

lemma tileIdToString_inj:
  assumes "0 \<le> r" "0 \<le> c" "0 \<le> r'" "0 \<le> c'"
    and "tileIdToString \<lparr>row = r, col = c\<rparr> = tileIdToString \<lparr>row = r', col = c'\<rparr>"
  shows "r = r' \<and> c = c'"
proof -
  have p1: "parseTileId (tileIdToString \<lparr>row = r, col = c\<rparr>) = Some \<lparr>row = r, col = c\<rparr>"
    using assms(1,2) by (simp add: parseTileId_tileIdToString)
  have p2: "parseTileId (tileIdToString \<lparr>row = r', col = c'\<rparr>) = Some \<lparr>row = r', col = c'\<rparr>"
    using assms(3,4) by (simp add: parseTileId_tileIdToString)
  from p1[unfolded assms(5)] p2 have "Some \<lparr>row = r, col = c\<rparr> = Some \<lparr>row = r', col = c'\<rparr>"
    by (rule trans[OF sym])
  then show ?thesis by simp
qed

lemma forEachM_cols:
  assumes "0 \<le> r" "\<forall>c \<in> set cs. 0 \<le> c" "distinct cs"
    and "\<forall>c \<in> set cs. ents (tileIdToString \<lparr>row = r, col = c\<rparr>) = None"
  shows "\<exists>ents'. forEachM (\<lambda>c entities.
             let bounds = tileBounds r c cfg g
             in addEntity entities (tileIdToString \<lparr>row = r, col = c\<rparr>) \<lparr>rectangle = bounds, shown = True\<rparr>)
           cs ents = Inr ents'
       \<and> (\<forall>eid e. ents' eid = Some e \<longleftrightarrow>
             ents eid = Some e
             \<or> (\<exists>c \<in> set cs. eid = tileIdToString \<lparr>row = r, col = c\<rparr>
                   \<and> e = \<lparr>rectangle = tileBounds r c cfg g, shown = True\<rparr>))"
  using assms(2,3,4)
proof (induction cs arbitrary: ents)
  case Nil
  then show ?case by simp
next
  case (Cons c cs)
  let ?id = "\<lambda>c. tileIdToString \<lparr>row = r, col = c\<rparr>"
  let ?e = "\<lambda>c. \<lparr>rectangle = tileBounds r c cfg g, shown = True\<rparr>"
  let ?ents1 = "ents(?id c \<mapsto> ?e c)"
  have c0: "0 \<le> c" using Cons.prems(1) by simp
  have fresh1: "\<forall>c' \<in> set cs. ?ents1 (?id c') = None"
  proof
    fix c' assume in_cs: "c' \<in> set cs"
    then have "c' \<noteq> c" "0 \<le> c'" using Cons.prems(1,2) by auto
    then have "?id c' \<noteq> ?id c" using tileIdToString_inj[OF assms(1) _ assms(1) c0, of c'] by blast
    then show "?ents1 (?id c') = None" using Cons.prems(3) in_cs by simp
  qed
  have "\<forall>c \<in> set cs. 0 \<le> c" "distinct cs" using Cons.prems(1,2) by simp_all
  from Cons.IH[OF this fresh1]
  obtain ents' where ents': "forEachM (\<lambda>c entities.
             let bounds = tileBounds r c cfg g
             in addEntity entities (?id c) \<lparr>rectangle = bounds, shown = True\<rparr>) cs ?ents1 = Inr ents'"
    "\<forall>eid e. ents' eid = Some e \<longleftrightarrow> ?ents1 eid = Some e \<or> (\<exists>c \<in> set cs. eid = ?id c \<and> e = ?e c)"
    by blast
  have first: "addEntity ents (?id c) (?e c) = Inr ?ents1"
    using Cons.prems(3) by (simp add: addEntity_def)
  have run: "forEachM (\<lambda>c entities.
             let bounds = tileBounds r c cfg g
             in addEntity entities (?id c) \<lparr>rectangle = bounds, shown = True\<rparr>) (c # cs) ents = Inr ents'"
    unfolding forEachM.simps Let_def first sum.case using ents'(1) unfolding Let_def .
  have old: "ents (?id c) = None" using Cons.prems(3) by simp
  have "ents' eid = Some e \<longleftrightarrow> ents eid = Some e \<or> (\<exists>c' \<in> set (c # cs). eid = ?id c' \<and> e = ?e c')" for eid e
    using ents'(2)[rule_format, of eid e] old by (cases "eid = ?id c") auto
  with run show ?case by blast
qed

lemma forEachM_rows:
  assumes "\<forall>r \<in> set rs. 0 \<le> r" "distinct rs" "\<forall>c \<in> set cs. 0 \<le> c" "distinct cs"
    and "\<forall>r \<in> set rs. \<forall>c \<in> set cs. ents (tileIdToString \<lparr>row = r, col = c\<rparr>) = None"
  shows "\<exists>ents'. forEachM (\<lambda>r. forEachM (\<lambda>c entities.
             let bounds = tileBounds r c cfg g
             in addEntity entities (tileIdToString \<lparr>row = r, col = c\<rparr>) \<lparr>rectangle = bounds, shown = True\<rparr>)
           cs) rs ents = Inr ents'
       \<and> (\<forall>eid e. ents' eid = Some e \<longleftrightarrow>
             ents eid = Some e
             \<or> (\<exists>r \<in> set rs. \<exists>c \<in> set cs. eid = tileIdToString \<lparr>row = r, col = c\<rparr>
                   \<and> e = \<lparr>rectangle = tileBounds r c cfg g, shown = True\<rparr>))"
  using assms(1,2,5)
proof (induction rs arbitrary: ents)
  case Nil
  then show ?case by simp
next
  case (Cons r rs)
  let ?id = "\<lambda>r c. tileIdToString \<lparr>row = r, col = c\<rparr>"
  let ?e = "\<lambda>r c. \<lparr>rectangle = tileBounds r c cfg g, shown = True\<rparr>"
  let ?inner = "\<lambda>r. forEachM (\<lambda>c entities.
             let bounds = tileBounds r c cfg g
             in addEntity entities (?id r c) \<lparr>rectangle = bounds, shown = True\<rparr>) cs"
  have r0: "0 \<le> r" using Cons.prems(1) by simp
  have "\<forall>c \<in> set cs. ents (?id r c) = None" using Cons.prems(3) by simp
  from forEachM_cols[OF r0 assms(3,4) this, of cfg g]
  obtain ents1 where ents1: "?inner r ents = Inr ents1"
    "\<forall>eid e. ents1 eid = Some e \<longleftrightarrow> ents eid = Some e \<or> (\<exists>c \<in> set cs. eid = ?id r c \<and> e = ?e r c)"
    by blast
  have fresh1: "\<forall>r' \<in> set rs. \<forall>c \<in> set cs. ents1 (?id r' c) = None"
  proof (intro ballI)
    fix r' c assume in_rs: "r' \<in> set rs" and in_cs: "c \<in> set cs"
    then have ne: "r' \<noteq> r" and nn: "0 \<le> r'" "0 \<le> c" using Cons.prems(1,2) assms(3) by auto
    show "ents1 (?id r' c) = None"
    proof (rule graph_None[OF ents1(2)])
      show "ents (?id r' c) = None" using Cons.prems(3) in_rs in_cs by simp
      show "\<forall>e. \<not> (\<exists>c' \<in> set cs. ?id r' c = ?id r c' \<and> e = ?e r c')"
      proof (intro allI notI)
        fix e assume "\<exists>c' \<in> set cs. ?id r' c = ?id r c' \<and> e = ?e r c'"
        then obtain c' where c': "c' \<in> set cs" "?id r' c = ?id r c'" by blast
        then have "0 \<le> c'" using assms(3) by simp
        from tileIdToString_inj[OF nn r0 this c'(2)] ne show False by simp
      qed
    qed
  qed
  have "\<forall>r \<in> set rs. 0 \<le> r" "distinct rs" using Cons.prems(1,2) by simp_all
  from Cons.IH[OF this fresh1]
  obtain ents' where ents': "forEachM ?inner rs ents1 = Inr ents'"
    "\<forall>eid e. ents' eid = Some e \<longleftrightarrow>
        ents1 eid = Some e \<or> (\<exists>r \<in> set rs. \<exists>c \<in> set cs. eid = ?id r c \<and> e = ?e r c)"
    by blast
  have run: "forEachM ?inner (r # rs) ents = Inr ents'"
    unfolding forEachM.simps ents1(1) sum.case using ents'(1) .
  have "ents' eid = Some e \<longleftrightarrow>
      ents eid = Some e \<or> (\<exists>r' \<in> set (r # rs). \<exists>c \<in> set cs. eid = ?id r' c \<and> e = ?e r' c)" for eid e
    using ents'(2)[rule_format, of eid e] ents1(2)[rule_format, of eid e] by auto
  with run show ?case by blast
qed

lemma initialEntities_graph:
  "\<exists>ents0. initialEntities st = Inr ents0
     \<and> (\<forall>eid e. ents0 eid = Some e \<longleftrightarrow>
           (\<exists>r c. validTile st r c \<and> eid = tileIdToString \<lparr>row = r, col = c\<rparr>
              \<and> e = \<lparr>rectangle = tileBounds r c (gridConfig st) (TILE_GAP st), shown = True\<rparr>))"
proof -
  let ?rs = "[0 .. latCount (gridConfig st) - 1]"
  let ?cs = "[0 .. lonCount (gridConfig st) - 1]"
  have a: "\<forall>r \<in> set ?rs. 0 \<le> r" "distinct ?rs" "\<forall>c \<in> set ?cs. 0 \<le> c" "distinct ?cs"
    "\<forall>r \<in> set ?rs. \<forall>c \<in> set ?cs. Map.empty (tileIdToString \<lparr>row = r, col = c\<rparr>) = None"
    by simp_all
  from forEachM_rows[OF a, of "gridConfig st" "TILE_GAP st"]
  obtain ents0 where e0: "initialEntities st = Inr ents0"
    "\<forall>eid e. ents0 eid = Some e \<longleftrightarrow>
        Map.empty eid = Some e
        \<or> (\<exists>r \<in> set ?rs. \<exists>c \<in> set ?cs. eid = tileIdToString \<lparr>row = r, col = c\<rparr>
              \<and> e = \<lparr>rectangle = tileBounds r c (gridConfig st) (TILE_GAP st), shown = True\<rparr>)"
    unfolding initialEntities_def by blast
  have v: "(\<exists>r \<in> set ?rs. \<exists>c \<in> set ?cs. P r c) \<longleftrightarrow> (\<exists>r c. validTile st r c \<and> P r c)"
    for P :: "int \<Rightarrow> int \<Rightarrow> bool"
  proof -
    have "validTile st r c \<longleftrightarrow> r \<in> set ?rs \<and> c \<in> set ?cs" for r c
      unfolding validTile_def by simp
    then show ?thesis by blast
  qed
  have "ents0 eid = Some e \<longleftrightarrow>
           (\<exists>r c. validTile st r c \<and> eid = tileIdToString \<lparr>row = r, col = c\<rparr>
              \<and> e = \<lparr>rectangle = tileBounds r c (gridConfig st) (TILE_GAP st), shown = True\<rparr>)" for eid e
    using e0(2)[rule_format, of eid e] unfolding v by simp
  with e0(1) show ?thesis by blast
qed

lemma tileBounds_as_insetBounds:
  assumes "0 \<le> gapFraction"
  shows "tileBounds r c config gapFraction = insetBounds (tileBounds r c config 0) gapFraction"
proof (cases "gapFraction = 0")
  case True
  then show ?thesis by (simp add: insetBounds_def Let_def)
next
  case False
  with assms have "0 < gapFraction" by simp
  then show ?thesis
    by (simp add: tileBounds_raw insetBounds_def) (simp add: tileBounds_def Let_def)
qed

lemma wellFormed_initial:
  assumes sane: "saneSettings st" and init: "initialEntities st = Inr entities"
  shows "wellFormed st entities"
proof -
  from initialEntities_graph[of st] init
  have graph: "\<forall>eid e. entities eid = Some e \<longleftrightarrow>
           (\<exists>r c. validTile st r c \<and> eid = tileIdToString \<lparr>row = r, col = c\<rparr>
              \<and> e = \<lparr>rectangle = tileBounds r c (gridConfig st) (TILE_GAP st), shown = True\<rparr>)"
    by simp
  have gap: "0 < TILE_GAP st" using sane by (simp add: saneSettings_def)
  have part1: "shown e \<and>
        (\<exists>r c path. validTile st r c \<and> validPath path \<and> length path \<le> SPLIT_DEPTH st
           \<and> eid = nodeId (tileIdToString \<lparr>row = r, col = c\<rparr>) path
           \<and> strictlyWithin (rectangle e) (regionAt (tileBounds r c (gridConfig st) 0) path))"
    if s: "entities eid = Some e" for eid e
  proof -
    from graph[rule_format, of eid e] s obtain r c where rc: "validTile st r c"
      "eid = tileIdToString \<lparr>row = r, col = c\<rparr>"
      "e = \<lparr>rectangle = tileBounds r c (gridConfig st) (TILE_GAP st), shown = True\<rparr>"
      by blast
    have "strictlyWithin (insetBounds (tileBounds r c (gridConfig st) 0) (TILE_GAP st))
        (tileBounds r c (gridConfig st) 0)"
      using tileBounds_nonDegenerate[OF sane] gap by (rule insetBounds_strictlyWithin)
    then have sw: "strictlyWithin (rectangle e) (regionAt (tileBounds r c (gridConfig st) 0) [])"
      unfolding rc(3) regionAt_Nil using tileBounds_as_insetBounds[of "TILE_GAP st" r c "gridConfig st"] gap
      by simp
    have "validTile st r c \<and> validPath [] \<and> length ([]::nat list) \<le> SPLIT_DEPTH st
           \<and> eid = nodeId (tileIdToString \<lparr>row = r, col = c\<rparr>) []
           \<and> strictlyWithin (rectangle e) (regionAt (tileBounds r c (gridConfig st) 0) [])"
      using rc(1,2) sw by (simp add: validPath_Nil nodeId_Nil)
    moreover have "shown e" unfolding rc(3) by simp
    ultimately show ?thesis by blast
  qed
  have part2: "entities eid = None"
    if v: "validTile st r c" and pre: "prefix (tileIdToString \<lparr>row = r, col = c\<rparr> @ ''_'') eid" for r c eid
  proof (cases "entities eid")
    case None
    then show ?thesis .
  next
    case (Some e)
    from graph[rule_format, of eid e] Some obtain r' c' where rc: "validTile st r' c'"
      "eid = tileIdToString \<lparr>row = r', col = c'\<rparr>" by blast
    have nn: "0 \<le> r" "0 \<le> c" "0 \<le> r'" "0 \<le> c'" using v rc(1) by (simp_all add: validTile_def)
    from pre rc(2) have "prefix (tileIdToString \<lparr>row = r, col = c\<rparr> @ ''_'')
        (nodeId (tileIdToString \<lparr>row = r', col = c'\<rparr>) [])" by (simp add: nodeId_Nil)
    from nodeId_other_tile[OF nn this] pre rc(2)
    have "prefix (eid @ ''_'') eid" by simp
    then have "length (eid @ ''_'') \<le> length eid" by (rule prefix_length_le)
    then have False by simp
    then show ?thesis ..
  qed
  show ?thesis unfolding wellFormed_def using part1 part2 by blast
qed

lemma reachable_wellFormed:
  assumes "saneSettings st" "reachable st entities"
  shows "wellFormed st entities"
  using assms(2)
proof (induction rule: reachable.induct)
  case (start entities)
  with assms(1) show ?case by (rule wellFormed_initial)
next
  case (step entities lat lon entities')
  from step.IH assms(1) step.hyps(2) show ?case by (rule wellFormed_preserved)
qed

lemma reachable_startEntities: "reachable st (startEntities st)"
proof -
  from initialEntities_graph[of st] obtain ents0 where "initialEntities st = Inr ents0" by blast
  then show ?thesis by (simp add: startEntities_def reachable.start)
qed


lemma inBounds_holeBounds:
  assumes "inBounds b lat lon"
  shows "inBounds (holeBounds lat lon b) lat lon"
  using quadrantBounds_quadrantAt[OF assms] by (simp add: holeBounds_Some)

lemma inBounds_pointPath:
  assumes "inBounds b lat lon"
  shows "inBounds (regionAt b (pointPath lat lon b n)) lat lon"
  using assms
proof (induction n arbitrary: b)
  case 0
  then show ?case by (simp add: regionAt_Nil)
next
  case (Suc n)
  from Suc.IH[OF inBounds_holeBounds[OF Suc.prems]] show ?case
    by (simp add: regionAt_Cons holeBounds_def)
qed

text \<open>
  Claim C2. From the registry of start-up, after any number of invocations, one more
  invocation at a point returns a registry in which no entity has a rectangle that
  contains the point; the node at depth \<open>SPLIT_DEPTH\<close> on the way of the point (the final
  hole) has no entity, and its region contains the point whenever the tile's cell does.
\<close>

theorem no_entity_contains_point:
  assumes "saneSettings st" "reachable st entities"
  shows "\<exists>entities'. removeOrSplitTileAt st lat lon entities = Inr entities'
           \<and> (\<forall>eid e. entities' eid = Some e \<longrightarrow> \<not> inBounds (rectangle e) lat lon)
           \<and> entities' (wayId st lat lon (SPLIT_DEPTH st)) = None
           \<and> (inBounds (baseBoundsAt st lat lon) lat lon
                \<longrightarrow> inBounds (wayBounds st lat lon (SPLIT_DEPTH st)) lat lon)"
proof -
  have wf: "wellFormed st entities" using assms by (rule reachable_wellFormed)
  from no_entity_at_point[OF wf assms(1), of lat lon]
  obtain ents' where "removeOrSplitTileAt st lat lon entities = Inr ents'"
    "\<forall>eid e. ents' eid = Some e \<longrightarrow> \<not> inBounds (rectangle e) lat lon"
    "ents' (wayId st lat lon (SPLIT_DEPTH st)) = None"
    by blast
  moreover have "inBounds (baseBoundsAt st lat lon) lat lon
      \<longrightarrow> inBounds (wayBounds st lat lon (SPLIT_DEPTH st)) lat lon"
    unfolding wayBounds_def pathAt_def using inBounds_pointPath by blast
  ultimately show ?thesis by blast
qed

lemma followSettings_sane: "saneSettings followSettings"
  by (simp add: saneSettings_def followSettings_def)

lemma followSettings_tile_1_1:
  "latLonToTile 1 1 (gridConfig followSettings) = \<lparr>row = 9, col = 18\<rparr>"
  by (simp add: followSettings_def latLonToTile_def Let_def)

lemma followSettings_base_1_1:
  "baseBoundsAt followSettings 1 1 = \<lparr>west = 0, south = 0, east = 10, north = 10\<rparr>"
  unfolding baseBoundsAt_def followSettings_tile_1_1
  by (simp add: followSettings_def tileBounds_def Let_def)

theorem no_entity_contains_point_witness:
  "saneSettings followSettings
   \<and> reachable followSettings (startEntities followSettings)
   \<and> inBounds (baseBoundsAt followSettings 1 1) 1 1
   \<and> (\<exists>entities'. removeOrSplitTileAt followSettings 1 1 (startEntities followSettings) = Inr entities'
          \<and> (\<forall>eid e. entities' eid = Some e \<longrightarrow> \<not> inBounds (rectangle e) 1 1)
          \<and> entities' (wayId followSettings 1 1 (SPLIT_DEPTH followSettings)) = None)
   \<and> inBounds (wayBounds followSettings 1 1 (SPLIT_DEPTH followSettings)) 1 1"
proof -
  have i: "inBounds (baseBoundsAt followSettings 1 1) 1 1"
    unfolding followSettings_base_1_1 by (simp add: inBounds_def)
  from no_entity_contains_point[OF followSettings_sane reachable_startEntities, of 1 1] i
  show ?thesis using followSettings_sane reachable_startEntities by blast
qed

subsection \<open>A first split and the split of one of its leaves\<close>







subsection \<open>A second invocation inside the hole\<close>





subsection \<open>The example: a tile of \<open>followSettings\<close> split at (1, 1)\<close>














end
